theory Spec2Isabelle
  imports Complex_Main
begin

section \<open>Lattice-based WER engine (task_04/src/lattice_wer.py)\<close>

text \<open>
  Tokens are Python strings, modelled as \<^typ>\<open>string\<close>. Lengths, table indices and
  operation counts are Python integers that are never negative in this code, so they are
  natural numbers here; a subtraction \<open>i - 1\<close> only occurs where the source has \<open>i > 0\<close>.
  A Python \<open>float\<close> obtained by dividing two integers is modelled by the exact quotient as
  a rational number (the stored double is the one nearest to it).
\<close>

subsection \<open>Errors\<close>

text \<open>
  \<open>ValueError\<close> and \<open>ZeroDivisionError\<close> are the two exceptions this code can raise;
  \<open>NoReturn\<close> stands for a loop that makes no progress and so never returns.
\<close>

datatype error = ValueError string | ZeroDivisionError | NoReturn

definition py_truediv :: "nat \<Rightarrow> nat \<Rightarrow> error + rat" where
  \<comment> \<open>Python's \<open>a / b\<close> on integers: raises on a zero divisor.\<close>
  "py_truediv a b = (if b = 0 then Inl ZeroDivisionError else Inr (of_nat a / of_nat b))"

subsection \<open>Case folding\<close>

text \<open>
  \<open>str.lower()\<close> is a builtin of the language; its Unicode case table is not part of the
  repository. Every function of the model that calls it takes it as its first argument
  \<open>lower\<close>, a function from tokens to tokens, and nothing is assumed of it unless a
  theorem says so. A token with characters outside ASCII is the byte string of its
  encoding, on which \<open>lower\<close> acts as \<open>str.lower()\<close> acts on the token.

  \<open>ascii_lower\<close> is \<open>str.lower()\<close> on strings of ASCII characters: the letters \<open>A\<close> to
  \<open>Z\<close> become \<open>a\<close> to \<open>z\<close>. It serves to run the model on ASCII tokens.
\<close>

definition ascii_lower_char :: "char \<Rightarrow> char" where
  "ascii_lower_char c =
     (let k = (of_char c :: nat) in if 65 \<le> k \<and> k \<le> 90 then char_of (k + 32) else c)"

definition ascii_lower :: "string \<Rightarrow> string" where
  "ascii_lower w = map ascii_lower_char w"

subsection \<open>The external edit-distance routine\<close>

text \<open>
  \<open>editdistance.eval(a, b)\<close> belongs to the third-party package \<open>editdistance\<close>, not to
  this repository. Its contract is the Levenshtein distance between two sequences of
  hashable items, the items compared as they are (no case folding). The model is the
  Wagner-Fischer recurrence on prefixes: \<open>lev a b i j\<close> is the distance between the first
  \<open>i\<close> items of \<open>a\<close> and the first \<open>j\<close> items of \<open>b\<close>.
\<close>

fun lev :: "'a list \<Rightarrow> 'a list \<Rightarrow> nat \<Rightarrow> nat \<Rightarrow> nat" where
  "lev a b 0 j = j"
| "lev a b (Suc i) 0 = Suc i"
| "lev a b (Suc i) (Suc j) =
     min (min (lev a b i j + (if a ! i = b ! j then 0 else 1)) (lev a b i (Suc j) + 1))
         (lev a b (Suc i) j + 1)"

definition editdistance_eval :: "'a list \<Rightarrow> 'a list \<Rightarrow> nat" where
  "editdistance_eval a b = lev a b (length a) (length b)"

subsection \<open>Tables\<close>

text \<open>
  Both dynamic programs keep their table as a list of rows, built by a nested
  comprehension (so the rows are separate lists) and changed by \<open>t[i][j] = v\<close>. Every
  index the loops use lies inside the table, which has \<open>len(a) + 1\<close> rows and
  \<open>len(b) + 1\<close> columns; outside it Python would raise \<open>IndexError\<close>.
\<close>

type_synonym 'a table = "'a list list"

definition new_table :: "nat \<Rightarrow> nat \<Rightarrow> 'a \<Rightarrow> 'a table" where
  "new_table rows cols v = replicate rows (replicate cols v)"

definition cell :: "'a table \<Rightarrow> nat \<Rightarrow> nat \<Rightarrow> 'a" where
  "cell t i j = t ! i ! j"

definition set_cell :: "'a table \<Rightarrow> nat \<Rightarrow> nat \<Rightarrow> 'a \<Rightarrow> 'a table" where
  "set_cell t i j v = t[i := (t ! i)[j := v]]"

subsection \<open>LatticeWER._get_alignment_details\<close>

datatype op_code = OpEmpty | M | S | D | I

text \<open>
  The state of the loops is the pair of the tables \<open>dp\<close> and \<open>ops\<close>. \<open>OpEmpty\<close> is the
  empty string that fills \<open>ops\<close> at first and is stored again at \<open>ops[0][0]\<close>.
\<close>

definition init_tables :: "nat \<Rightarrow> nat \<Rightarrow> nat table \<times> op_code table" where
  "init_tables m n =
     (let dp0 = new_table (m + 1) (n + 1) 0;
          ops0 = new_table (m + 1) (n + 1) OpEmpty;
          (dp1, ops1) = foldl (\<lambda>(dp, ops) i. (set_cell dp i 0 i, set_cell ops i 0 D))
                              (dp0, ops0) [0..<m + 1];
          (dp2, ops2) = foldl (\<lambda>(dp, ops) j. (set_cell dp 0 j j, set_cell ops 0 j I))
                              (dp1, ops1) [0..<n + 1]
      in (dp2, set_cell ops2 0 0 OpEmpty))"

definition fill_cell ::
  "(string \<Rightarrow> string) \<Rightarrow> string list \<Rightarrow> string list \<Rightarrow> nat \<Rightarrow> nat \<Rightarrow> nat table \<times> op_code table
     \<Rightarrow> nat table \<times> op_code table" where
  \<comment> \<open>the body of the two nested loops, for \<open>1 \<le> i \<le> m\<close> and \<open>1 \<le> j \<le> n\<close>\<close>
  "fill_cell lower hyp ref i j tabs =
     (case tabs of (dp, ops) \<Rightarrow>
        if lower (hyp ! (i - 1)) = lower (ref ! (j - 1))
        then (set_cell dp i j (cell dp (i - 1) (j - 1)), set_cell ops i j M)
        else let sub = cell dp (i - 1) (j - 1) + 1;
                 delete = cell dp (i - 1) j + 1;
                 insert = cell dp i (j - 1) + 1;
                 min_cost = min (min sub delete) insert;
                 dp' = set_cell dp i j min_cost
             in if min_cost = sub then (dp', set_cell ops i j S)
                else if min_cost = delete then (dp', set_cell ops i j D)
                else (dp', set_cell ops i j I))"

definition fill_tables :: "(string \<Rightarrow> string) \<Rightarrow> string list \<Rightarrow> string list \<Rightarrow> nat table \<times> op_code table" where
  "fill_tables lower hyp ref =
     (let m = length hyp; n = length ref
      in foldl (\<lambda>tabs i. foldl (\<lambda>tabs j. fill_cell lower hyp ref i j tabs) tabs [1..<n + 1])
               (init_tables m n) [1..<m + 1])"

record op_counts =
  subs :: nat
  dels :: nat
  ins :: nat

text \<open>The counting loop \<open>while i > 0 or j > 0\<close>, with the three counters as a record.\<close>

function count_ops :: "op_code table \<Rightarrow> nat \<Rightarrow> nat \<Rightarrow> op_counts \<Rightarrow> op_counts" where
  "count_ops ops i j c =
     (if i > 0 \<or> j > 0 then
        (if i = 0 then count_ops ops i (j - 1) (c\<lparr>ins := ins c + 1\<rparr>)
         else if j = 0 then count_ops ops (i - 1) j (c\<lparr>dels := dels c + 1\<rparr>)
         else (case cell ops i j of
                 M \<Rightarrow> count_ops ops (i - 1) (j - 1) c
               | S \<Rightarrow> count_ops ops (i - 1) (j - 1) (c\<lparr>subs := subs c + 1\<rparr>)
               | D \<Rightarrow> count_ops ops (i - 1) j (c\<lparr>dels := dels c + 1\<rparr>)
               | _ \<Rightarrow> count_ops ops i (j - 1) (c\<lparr>ins := ins c + 1\<rparr>)))
      else c)"
  by pat_completeness auto
termination
  by (relation "measure (\<lambda>(ops, i, j, c). i + j)") auto

definition get_alignment_details :: "(string \<Rightarrow> string) \<Rightarrow> string list \<Rightarrow> string list \<Rightarrow> op_counts" where
  "get_alignment_details lower hyp ref =
     (case fill_tables lower hyp ref of (dp, ops) \<Rightarrow>
        count_ops ops (length hyp) (length ref) \<lparr>subs = 0, dels = 0, ins = 0\<rparr>)"

subsection \<open>LatticeWER.compute_standard_wer\<close>

record wer_record =
  wer :: rat
  distance :: nat
  reference_length :: nat
  substitutions :: nat
  deletions :: nat
  insertions :: nat

definition compute_standard_wer :: "(string \<Rightarrow> string) \<Rightarrow> string list \<Rightarrow> string list \<Rightarrow> error + wer_record" where
  "compute_standard_wer lower hypothesis reference =
     (let dist = editdistance_eval hypothesis reference;
          alignment = get_alignment_details lower hypothesis reference
      in case (if length reference > 0 then py_truediv dist (length reference) else Inr 0) of
           Inl e \<Rightarrow> Inl e
         | Inr w \<Rightarrow> Inr \<lparr>wer = w, distance = dist, reference_length = length reference,
                         substitutions = subs alignment, deletions = dels alignment,
                         insertions = ins alignment\<rparr>)"

subsection \<open>Python containers\<close>

text \<open>
  A \<open>dict\<close> is an association list in insertion order (the keys of a dict are distinct;
  the functions below are defined on every association list). \<open>dict_set\<close> is the
  assignment \<open>d[k] = v\<close>: an existing key keeps its place. \<open>dd_update k dflt f\<close> is the
  access \<open>d[k]\<close> on a \<open>defaultdict\<close> followed by an in-place change \<open>f\<close> of the value
  found (or of the default just stored under the new key). \<open>dd_get\<close> reads \<open>d[k]\<close>.
\<close>

fun dict_set :: "'k \<Rightarrow> 'v \<Rightarrow> ('k \<times> 'v) list \<Rightarrow> ('k \<times> 'v) list" where
  "dict_set k v [] = [(k, v)]"
| "dict_set k v ((k', v') # d) =
     (if k' = k then (k', v) # d else (k', v') # dict_set k v d)"

fun dd_update :: "'k \<Rightarrow> 'v \<Rightarrow> ('v \<Rightarrow> 'v) \<Rightarrow> ('k \<times> 'v) list \<Rightarrow> ('k \<times> 'v) list" where
  "dd_update k dflt f [] = [(k, f dflt)]"
| "dd_update k dflt f ((k', v) # d) =
     (if k' = k then (k', f v) # d else (k', v) # dd_update k dflt f d)"

definition dd_get :: "('k \<times> 'v) list \<Rightarrow> 'v \<Rightarrow> 'k \<Rightarrow> 'v" where
  "dd_get d dflt k = (case map_of d k of Some v \<Rightarrow> v | None \<Rightarrow> dflt)"

text \<open>
  \<open>max(xs, key=f)\<close> keeps the first item whose key is maximal and raises \<open>ValueError\<close> on
  an empty argument.
\<close>

fun py_max_key :: "('a \<Rightarrow> 'k::linorder) \<Rightarrow> 'a list \<Rightarrow> error + 'a" where
  "py_max_key key [] = Inl (ValueError ''max() arg is an empty sequence'')"
| "py_max_key key (x # xs) =
     Inr (foldl (\<lambda>best y. if key y > key best then y else best) x xs)"

text \<open>A \<open>for\<close> loop whose body may raise: the first exception ends the loop.\<close>

fun for_each :: "('a \<Rightarrow> 's \<Rightarrow> error + 's) \<Rightarrow> 'a list \<Rightarrow> 's \<Rightarrow> error + 's" where
  "for_each body [] s = Inr s"
| "for_each body (x # xs) s =
     (case body x s of Inl e \<Rightarrow> Inl e | Inr s' \<Rightarrow> for_each body xs s')"

subsection \<open>The lattice\<close>

record LatticeNode =
  position :: int
  word :: string
  sources :: "string set"
  confidence :: rat

record LatticeEdge =
  start_pos :: int
  end_pos :: int
  edge_word :: string
  edge_sources :: "string set"
  weight :: rat

record WordLattice =
  alignment_unit :: string
  nodes :: "LatticeNode list"
  edges :: "LatticeEdge list"
  paths :: "string list list"

definition WordLattice_init :: "string \<Rightarrow> WordLattice" where
  "WordLattice_init unit = \<lparr>alignment_unit = unit, nodes = [], edges = [], paths = []\<rparr>"

subsection \<open>WordLattice._align_pair\<close>

datatype align_op = Start | Match | Substitute | Delete | Insert

type_synonym alignment = "(int \<times> string \<times> align_op) list"

text \<open>
  The table \<open>dp\<close> holds \<open>None\<close> at first and then pairs \<open>(cost, operation)\<close>. \<open>cost dp i j\<close>
  is the read \<open>dp[i][j][0]\<close> and \<open>oper dp i j\<close> the read \<open>dp[i][j][1]\<close>; on a cell that
  still held \<open>None\<close> they would raise \<open>TypeError\<close>, but every cell is assigned before it
  is read.
\<close>

type_synonym align_table = "(nat \<times> align_op) option table"

definition cost :: "align_table \<Rightarrow> nat \<Rightarrow> nat \<Rightarrow> nat" where
  "cost dp i j = fst (the (cell dp i j))"

definition oper :: "align_table \<Rightarrow> nat \<Rightarrow> nat \<Rightarrow> align_op" where
  "oper dp i j = snd (the (cell dp i j))"

definition init_align_table :: "nat \<Rightarrow> nat \<Rightarrow> align_table" where
  "init_align_table m n =
     (let dp0 = new_table (m + 1) (n + 1) None;
          dp1 = foldl (\<lambda>dp i. set_cell dp i 0 (Some (i, Delete))) dp0 [0..<m + 1];
          dp2 = foldl (\<lambda>dp j. set_cell dp 0 j (Some (j, Insert))) dp1 [0..<n + 1]
      in set_cell dp2 0 0 (Some (0, Start)))"

definition fill_align_cell ::
  "(string \<Rightarrow> string) \<Rightarrow> string list \<Rightarrow> string list \<Rightarrow> nat \<Rightarrow> nat \<Rightarrow> align_table \<Rightarrow> align_table" where
  \<comment> \<open>the body of the two nested loops, for \<open>1 \<le> i \<le> m\<close> and \<open>1 \<le> j \<le> n\<close>\<close>
  "fill_align_cell lower seq1 seq2 i j dp =
     (if lower (seq1 ! (i - 1)) = lower (seq2 ! (j - 1))
      then let match_cost = cost dp (i - 1) (j - 1)
           in set_cell dp i j (Some (match_cost, Match))
      else let sub_cost = cost dp (i - 1) (j - 1) + 1;
               del_cost = cost dp (i - 1) j + 1;
               ins_cost = cost dp i (j - 1) + 1;
               min_cost = min (min sub_cost del_cost) ins_cost
           in if min_cost = sub_cost then set_cell dp i j (Some (sub_cost, Substitute))
              else if min_cost = del_cost then set_cell dp i j (Some (del_cost, Delete))
              else set_cell dp i j (Some (ins_cost, Insert)))"

definition fill_align_table :: "(string \<Rightarrow> string) \<Rightarrow> string list \<Rightarrow> string list \<Rightarrow> align_table" where
  "fill_align_table lower seq1 seq2 =
     (let m = length seq1; n = length seq2
      in foldl (\<lambda>dp i. foldl (\<lambda>dp j. fill_align_cell lower seq1 seq2 i j dp) dp [1..<n + 1])
               (init_align_table m n) [1..<m + 1])"

text \<open>
  The backtracking loop. Its \<open>if\<close>/\<open>elif\<close> chain has no branch for \<open>'start'\<close>: with that
  operation in a cell reached at \<open>i > 0\<close> and \<open>j > 0\<close> the loop would change nothing and
  run forever, which is the result \<open>Inl NoReturn\<close> here.
\<close>

function backtrack ::
  "string list \<Rightarrow> string list \<Rightarrow> align_table \<Rightarrow> nat \<Rightarrow> nat \<Rightarrow> alignment \<Rightarrow> error + alignment" where
  "backtrack seq1 seq2 dp i j al =
     (if i > 0 \<or> j > 0 then
        (if i = 0
         then backtrack seq1 seq2 dp i (j - 1) (al @ [(int j - 1, seq2 ! (j - 1), Insert)])
         else if j = 0
         then backtrack seq1 seq2 dp (i - 1) j (al @ [(int i - 1, seq1 ! (i - 1), Delete)])
         else (case oper dp i j of
                 Match \<Rightarrow>
                   backtrack seq1 seq2 dp (i - 1) (j - 1)
                     (al @ [(int i - 1, seq2 ! (j - 1), Match)])
               | Substitute \<Rightarrow>
                   backtrack seq1 seq2 dp (i - 1) (j - 1)
                     (al @ [(int i - 1, seq2 ! (j - 1), Substitute)])
               | Delete \<Rightarrow>
                   backtrack seq1 seq2 dp (i - 1) j (al @ [(int i - 1, seq1 ! (i - 1), Delete)])
               | Insert \<Rightarrow>
                   backtrack seq1 seq2 dp i (j - 1) (al @ [(int j - 1, seq2 ! (j - 1), Insert)])
               | Start \<Rightarrow> Inl NoReturn))
      else Inr al)"
  by pat_completeness auto
termination
  by (relation "measure (\<lambda>(seq1, seq2, dp, i, j, al). i + j)") auto

definition align_pair :: "(string \<Rightarrow> string) \<Rightarrow> string list \<Rightarrow> string list \<Rightarrow> string \<Rightarrow> error + alignment" where
  "align_pair lower seq1 seq2 name =
     (let dp = fill_align_table lower seq1 seq2
      in case backtrack seq1 seq2 dp (length seq1) (length seq2) [] of
           Inl e \<Rightarrow> Inl e
         | Inr al \<Rightarrow> Inr (rev al))"

subsection \<open>WordLattice._align_all_sequences\<close>

text \<open>
  \<open>all_sequences\<close> is the hypotheses with the reference stored under \<open>'reference'\<close>. The
  anchor is the first key whose sequence is longest; \<open>max\<close> runs over the keys and reads
  each key's sequence, which is the item's second component.
\<close>

definition align_all_sequences ::
  "(string \<Rightarrow> string) \<Rightarrow> (string \<times> string list) list \<Rightarrow> string list \<Rightarrow> error + (string \<times> alignment) list" where
  "align_all_sequences lower hypotheses reference =
     (let all_sequences = dict_set ''reference'' reference hypotheses
      in case py_max_key (\<lambda>(k, seq). length seq) all_sequences of
           Inl e \<Rightarrow> Inl e
         | Inr (anchor_name, anchor_seq) \<Rightarrow>
             for_each
               (\<lambda>(name, seq) alignments.
                  if name = anchor_name
                  then Inr (dict_set name
                              (map (\<lambda>(i, w). (int i, w, Match)) (enumerate 0 seq)) alignments)
                  else (case align_pair lower anchor_seq seq name of
                          Inl e \<Rightarrow> Inl e
                        | Inr al \<Rightarrow> Inr (dict_set name al alignments)))
               all_sequences [])"

subsection \<open>WordLattice._construct_lattice\<close>

type_synonym position_words = "(int \<times> (string \<times> string set) list) list"

definition group_words :: "(string \<Rightarrow> string) \<Rightarrow> (string \<times> alignment) list \<Rightarrow> position_words" where
  "group_words lower alignments =
     foldl (\<lambda>pw (model_name, al).
              foldl (\<lambda>pw (pos, w, op).
                       if op \<noteq> Delete
                       then dd_update pos [] (dd_update (lower w) {} (insert model_name)) pw
                       else pw)
                    pw al)
           [] alignments"

definition add_word ::
  "nat \<Rightarrow> int list \<Rightarrow> nat \<Rightarrow> int \<Rightarrow> string \<times> string set \<Rightarrow> WordLattice \<Rightarrow> error + WordLattice" where
  "add_word n_alignments positions i pos ws L =
     (case ws of (w, srcs) \<Rightarrow>
        (case py_truediv (card srcs) n_alignments of
           Inl e \<Rightarrow> Inl e
         | Inr conf \<Rightarrow>
             let node = \<lparr>position = pos, word = w, sources = srcs, confidence = conf\<rparr>;
                 L1 = L\<lparr>nodes := nodes L @ [node]\<rparr>
             in if int i < int (length positions) - 1
                then Inr (L1\<lparr>edges := edges L1 @
                            [\<lparr>start_pos = pos, end_pos = positions ! (i + 1), edge_word = w,
                              edge_sources = srcs, weight = 1 - conf\<rparr>]\<rparr>)
                else Inr L1))"

definition construct_lattice ::
  "(string \<Rightarrow> string) \<Rightarrow> (string \<times> alignment) list \<Rightarrow> string list \<Rightarrow> WordLattice \<Rightarrow> error + WordLattice" where
  "construct_lattice lower alignments reference L =
     (let position_words = group_words lower alignments;
          positions = sort (map fst position_words)
      in for_each
           (\<lambda>(i, pos). for_each (add_word (length alignments) positions i pos)
                                 (dd_get position_words [] pos))
           (enumerate 0 positions) L)"

subsection \<open>WordLattice.build_from_hypotheses\<close>

definition build_from_hypotheses ::
  "(string \<Rightarrow> string) \<Rightarrow> (string \<times> string list) list \<Rightarrow> string list \<Rightarrow> WordLattice \<Rightarrow> error + WordLattice" where
  "build_from_hypotheses lower hypotheses reference L =
     (case align_all_sequences lower hypotheses reference of
        Inl e \<Rightarrow> Inl e
      | Inr alignments \<Rightarrow> construct_lattice lower alignments reference L)"

subsection \<open>Consensus extraction\<close>

definition group_nodes :: "(LatticeNode \<Rightarrow> 'k) \<Rightarrow> LatticeNode list \<Rightarrow> (int \<times> (string \<times> 'k) list) list" where
  \<comment> \<open>the first loop of both strategies: \<open>position_words[node.position].append((node.word, score))\<close>\<close>
  "group_nodes score ns =
     foldl (\<lambda>pw node. dd_update (position node) [] (\<lambda>l. l @ [(word node, score node)]) pw) [] ns"

fun pick_best :: "(int \<times> (string \<times> 'k::linorder) list) list \<Rightarrow> int list \<Rightarrow> error + string list" where
  \<comment> \<open>the second loop: one \<open>max(words, key=lambda x: x[1])[0]\<close> for each position\<close>
  "pick_best pw [] = Inr []"
| "pick_best pw (pos # rest) =
     (case py_max_key snd (dd_get pw [] pos) of
        Inl e \<Rightarrow> Inl e
      | Inr best \<Rightarrow>
          (case pick_best pw rest of
             Inl e \<Rightarrow> Inl e
           | Inr consensus \<Rightarrow> Inr (fst best # consensus)))"

definition voting_consensus :: "WordLattice \<Rightarrow> error + string list" where
  "voting_consensus L =
     (let position_words = group_nodes (\<lambda>n. card (sources n)) (nodes L)
      in pick_best position_words (sort (map fst position_words)))"

definition confidence_consensus :: "WordLattice \<Rightarrow> error + string list" where
  "confidence_consensus L =
     (let position_words = group_nodes confidence (nodes L)
      in pick_best position_words (sort (map fst position_words)))"

text \<open>
  The method does not assign to the lattice; the second component of the result is the
  lattice as it is after the call.
\<close>

definition get_consensus_transcription ::
  "WordLattice \<Rightarrow> string \<Rightarrow> (error + string list) \<times> WordLattice" where
  "get_consensus_transcription L strategy =
     (if strategy = ''voting'' then (voting_consensus L, L)
      else if strategy = ''confidence'' then (confidence_consensus L, L)
      else (Inl (ValueError (''Unknown strategy: '' @ strategy)), L))"

subsection \<open>WordLattice.should_trust_models_over_reference\<close>

definition scan_words ::
  "rat \<Rightarrow> LatticeNode list \<Rightarrow> string option \<times> string option" where
  \<comment> \<open>the loop that sets \<open>reference_word\<close> and \<open>consensus_word\<close>, both \<open>None\<close> at first\<close>
  "scan_words max_confidence ns =
     foldl (\<lambda>(reference_word, consensus_word) node.
              (if ''reference'' \<in> sources node then Some (word node) else reference_word,
               if confidence node = max_confidence then Some (word node) else consensus_word))
           (None, None) ns"

definition should_trust_models_over_reference :: "WordLattice \<Rightarrow> int \<Rightarrow> rat \<Rightarrow> bool" where
  "should_trust_models_over_reference L pos threshold =
     (case filter (\<lambda>n. position n = pos) (nodes L) of
        [] \<Rightarrow> False
      | n # ns \<Rightarrow>
          let max_confidence = foldl max (confidence n) (map confidence ns);
              (reference_word, consensus_word) = scan_words max_confidence (n # ns)
          in if max_confidence \<ge> threshold \<and> reference_word \<noteq> consensus_word then True
             else False)"

subsection \<open>What the tables hold\<close>

text \<open>
  The definitions of this subsection are not code of the engine. They state what the
  loops leave in the tables, and the lemmas \<open>fill_tables_cells\<close> and
  \<open>fill_align_table_cells\<close> below prove that the filled lower tables hold exactly these values.
  \<open>dp_rec lower hyp ref i j\<close> and \<open>ops_rec lower hyp ref i j\<close> are the values of \<open>dp[i][j]\<close> and
  \<open>ops[i][j]\<close> in \<open>_get_alignment_details\<close>, and \<open>align_rec lower seq1 seq2 i j\<close> the value of
  \<open>dp[i][j]\<close> in \<open>_align_pair\<close>, each given by the recurrence the loop body computes.
\<close>

definition has_dims :: "'a table \<Rightarrow> nat \<Rightarrow> nat \<Rightarrow> bool" where
  "has_dims t rows cols = (length t = rows \<and> list_all (\<lambda>row. length row = cols) t)"

fun dp_rec :: "(string \<Rightarrow> string) \<Rightarrow> string list \<Rightarrow> string list \<Rightarrow> nat \<Rightarrow> nat \<Rightarrow> nat" where
  "dp_rec lower hyp ref 0 j = j"
| "dp_rec lower hyp ref (Suc i) 0 = Suc i"
| "dp_rec lower hyp ref (Suc i) (Suc j) =
     (if lower (hyp ! i) = lower (ref ! j) then dp_rec lower hyp ref i j
      else min (min (dp_rec lower hyp ref i j + 1) (dp_rec lower hyp ref i (Suc j) + 1))
               (dp_rec lower hyp ref (Suc i) j + 1))"

fun ops_rec :: "(string \<Rightarrow> string) \<Rightarrow> string list \<Rightarrow> string list \<Rightarrow> nat \<Rightarrow> nat \<Rightarrow> op_code" where
  "ops_rec lower hyp ref 0 0 = OpEmpty"
| "ops_rec lower hyp ref 0 (Suc j) = I"
| "ops_rec lower hyp ref (Suc i) 0 = D"
| "ops_rec lower hyp ref (Suc i) (Suc j) =
     (if lower (hyp ! i) = lower (ref ! j) then M
      else let sub = dp_rec lower hyp ref i j + 1;
               delete = dp_rec lower hyp ref i (Suc j) + 1;
               insert = dp_rec lower hyp ref (Suc i) j + 1;
               min_cost = min (min sub delete) insert
           in if min_cost = sub then S
              else if min_cost = delete then D
              else I)"

fun align_rec :: "(string \<Rightarrow> string) \<Rightarrow> string list \<Rightarrow> string list \<Rightarrow> nat \<Rightarrow> nat \<Rightarrow> nat \<times> align_op" where
  "align_rec lower seq1 seq2 0 0 = (0, Start)"
| "align_rec lower seq1 seq2 0 (Suc j) = (Suc j, Insert)"
| "align_rec lower seq1 seq2 (Suc i) 0 = (Suc i, Delete)"
| "align_rec lower seq1 seq2 (Suc i) (Suc j) =
     (if lower (seq1 ! i) = lower (seq2 ! j) then (fst (align_rec lower seq1 seq2 i j), Match)
      else let sub_cost = fst (align_rec lower seq1 seq2 i j) + 1;
               del_cost = fst (align_rec lower seq1 seq2 i (Suc j)) + 1;
               ins_cost = fst (align_rec lower seq1 seq2 (Suc i) j) + 1;
               min_cost = min (min sub_cost del_cost) ins_cost
           in if min_cost = sub_cost then (sub_cost, Substitute)
              else if min_cost = del_cost then (del_cost, Delete)
              else (ins_cost, Insert))"

text \<open>
  \<open>filled lower hyp ref i j tabs\<close>: the tables have their full size and every cell that the
  loops have assigned before they reach \<open>(i, j)\<close> holds its value. \<open>align_filled\<close> is the
  same for the table of \<open>_align_pair\<close>.
\<close>

definition filled ::
  "(string \<Rightarrow> string) \<Rightarrow> string list \<Rightarrow> string list \<Rightarrow> nat \<Rightarrow> nat \<Rightarrow> nat table \<times> op_code table \<Rightarrow> bool" where
  "filled lower hyp ref i j tabs =
     (case tabs of (dp, ops) \<Rightarrow>
        has_dims dp (length hyp + 1) (length ref + 1) \<and>
        has_dims ops (length hyp + 1) (length ref + 1) \<and>
        (\<forall>i'\<le>length hyp. \<forall>j'\<le>length ref.
           i' = 0 \<or> j' = 0 \<or> i' < i \<or> (i' = i \<and> j' < j) \<longrightarrow>
           cell dp i' j' = dp_rec lower hyp ref i' j' \<and> cell ops i' j' = ops_rec lower hyp ref i' j'))"

definition align_filled ::
  "(string \<Rightarrow> string) \<Rightarrow> string list \<Rightarrow> string list \<Rightarrow> nat \<Rightarrow> nat \<Rightarrow> align_table \<Rightarrow> bool" where
  "align_filled lower seq1 seq2 i j dp =
     (has_dims dp (length seq1 + 1) (length seq2 + 1) \<and>
      (\<forall>i'\<le>length seq1. \<forall>j'\<le>length seq2.
         i' = 0 \<or> j' = 0 \<or> i' < i \<or> (i' = i \<and> j' < j) \<longrightarrow>
         cell dp i' j' = Some (align_rec lower seq1 seq2 i' j')))"

section \<open>The filled lower tables\<close>

subsection \<open>Reading and writing cells\<close>


lemma has_dims_new: "has_dims (new_table r c v) r c"
  by (simp add: has_dims_def new_table_def list_all_iff)

lemma has_dims_set: "has_dims t r c \<Longrightarrow> has_dims (set_cell t i j v) r c"
proof (cases "i < length t")
  case True
  assume "has_dims t r c"
  then show ?thesis
    using True unfolding has_dims_def set_cell_def list_all_iff
    by (auto dest!: set_update_subset_insert [THEN subsetD])
next
  case False
  assume "has_dims t r c"
  then show ?thesis
    using False by (simp add: set_cell_def list_update_beyond)
qed

lemma cell_new: "i < r \<Longrightarrow> j < c \<Longrightarrow> cell (new_table r c v) i j = v"
  by (simp add: cell_def new_table_def)

lemma cell_set:
  "has_dims t r c \<Longrightarrow> i < r \<Longrightarrow> j < c \<Longrightarrow>
   cell (set_cell t i j v) i' j' = (if i' = i \<and> j' = j then v else cell t i' j')"
  unfolding has_dims_def set_cell_def cell_def list_all_iff
  by (cases "i' = i") (auto simp: nth_list_update)

subsection \<open>A loop over a range keeps an invariant\<close>

lemma foldl_upt_inv:
  assumes "P a s" and "\<And>k s. a \<le> k \<Longrightarrow> k < b \<Longrightarrow> P k s \<Longrightarrow> P (Suc k) (f s k)" and "a \<le> b"
  shows "P b (foldl f s [a..<b])"
  using assms(3,2)
proof (induction b)
  case 0
  then show ?case using assms(1) by simp
next
  case (Suc b)
  show ?case
  proof (cases "a \<le> b")
    case True
    have "P b (foldl f s [a..<b])"
      by (rule Suc.IH [OF True]) (use Suc.prems(2) in simp)
    then have "P (Suc b) (f (foldl f s [a..<b]) b)"
      using Suc.prems(2) [of b] True by simp
    then show ?thesis using True by simp
  next
    case False
    then have "a = Suc b" using Suc.prems(1) by simp
    then show ?thesis using assms(1) by simp
  qed
qed


subsection \<open>The tables of \<open>_get_alignment_details\<close>\<close>

lemma dp_rec_zero [simp]: "dp_rec lower hyp ref i 0 = i"
  by (cases i) simp_all

lemma ops_rec_col0: "0 < i \<Longrightarrow> ops_rec lower hyp ref i 0 = D"
  by (cases i) simp_all

lemma ops_rec_row0: "0 < j \<Longrightarrow> ops_rec lower hyp ref 0 j = I"
  by (cases j) simp_all

lemma init_first_loop:
  "case foldl (\<lambda>(dp, ops) i. (set_cell dp i 0 i, set_cell ops i 0 D))
          (new_table (m + 1) (n + 1) 0, new_table (m + 1) (n + 1) OpEmpty) [0..<m + 1] of
     (dp, ops) \<Rightarrow>
       has_dims dp (m + 1) (n + 1) \<and> has_dims ops (m + 1) (n + 1) \<and>
       (\<forall>i<m + 1. cell dp i 0 = i \<and> cell ops i 0 = D)"
proof (rule foldl_upt_inv [where P = "\<lambda>k s. case s of (dp, ops) \<Rightarrow>
         has_dims dp (m + 1) (n + 1) \<and> has_dims ops (m + 1) (n + 1) \<and>
         (\<forall>i<k. cell dp i 0 = i \<and> cell ops i 0 = D)"])
  show "case (new_table (m + 1) (n + 1) 0, new_table (m + 1) (n + 1) OpEmpty) of
          (dp, ops) \<Rightarrow> has_dims dp (m + 1) (n + 1) \<and> has_dims ops (m + 1) (n + 1) \<and>
            (\<forall>i<0. cell dp i 0 = i \<and> cell ops i 0 = D)"
    by (simp add: has_dims_new)
next
  fix k and s :: "nat table \<times> op_code table"
  assume k: "k < m + 1"
    and s: "case s of (dp, ops) \<Rightarrow> has_dims dp (m + 1) (n + 1) \<and> has_dims ops (m + 1) (n + 1) \<and>
              (\<forall>i<k. cell dp i 0 = i \<and> cell ops i 0 = D)"
  obtain dp ops where [simp]: "s = (dp, ops)" by (cases s)
  from s have d: "has_dims dp (m + 1) (n + 1)" "has_dims ops (m + 1) (n + 1)"
    and c: "\<forall>i<k. cell dp i 0 = i \<and> cell ops i 0 = D"
    by simp_all
  have w: "cell (set_cell dp k 0 v) i' j' = (if i' = k \<and> j' = 0 then v else cell dp i' j')"
    "cell (set_cell ops k 0 u) i' j' = (if i' = k \<and> j' = 0 then u else cell ops i' j')"
    for v u i' j'
    using cell_set [OF d(1) k] cell_set [OF d(2) k] by simp_all
  have "\<forall>i<Suc k. cell (set_cell dp k 0 k) i 0 = i \<and> cell (set_cell ops k 0 D) i 0 = D"
    using c by (simp add: w less_Suc_eq)
  then show "case (case s of (dp, ops) \<Rightarrow> \<lambda>i. (set_cell dp i 0 i, set_cell ops i 0 D)) k of
          (dp, ops) \<Rightarrow> has_dims dp (m + 1) (n + 1) \<and> has_dims ops (m + 1) (n + 1) \<and>
            (\<forall>i<Suc k. cell dp i 0 = i \<and> cell ops i 0 = D)"
    using d by (simp add: has_dims_set)
qed simp

lemma init_second_loop:
  assumes "has_dims dp1 (m + 1) (n + 1)" "has_dims ops1 (m + 1) (n + 1)"
    and "\<forall>i<m + 1. cell dp1 i 0 = i \<and> cell ops1 i 0 = D"
  shows "case foldl (\<lambda>(dp, ops) j. (set_cell dp 0 j j, set_cell ops 0 j I)) (dp1, ops1) [0..<n + 1] of
     (dp, ops) \<Rightarrow>
       has_dims dp (m + 1) (n + 1) \<and> has_dims ops (m + 1) (n + 1) \<and>
       (\<forall>i<m + 1. 0 < i \<longrightarrow> cell dp i 0 = i \<and> cell ops i 0 = D) \<and>
       (\<forall>j<n + 1. cell dp 0 j = j \<and> cell ops 0 j = I)"
proof (rule foldl_upt_inv [where P = "\<lambda>k s. case s of (dp, ops) \<Rightarrow>
         has_dims dp (m + 1) (n + 1) \<and> has_dims ops (m + 1) (n + 1) \<and>
         (\<forall>i<m + 1. 0 < i \<longrightarrow> cell dp i 0 = i \<and> cell ops i 0 = D) \<and>
         (\<forall>j<k. cell dp 0 j = j \<and> cell ops 0 j = I)"])
  show "case (dp1, ops1) of
          (dp, ops) \<Rightarrow> has_dims dp (m + 1) (n + 1) \<and> has_dims ops (m + 1) (n + 1) \<and>
            (\<forall>i<m + 1. 0 < i \<longrightarrow> cell dp i 0 = i \<and> cell ops i 0 = D) \<and>
            (\<forall>j<0. cell dp 0 j = j \<and> cell ops 0 j = I)"
    using assms by simp
next
  fix k and s :: "nat table \<times> op_code table"
  assume k: "k < n + 1"
    and s: "case s of (dp, ops) \<Rightarrow> has_dims dp (m + 1) (n + 1) \<and> has_dims ops (m + 1) (n + 1) \<and>
              (\<forall>i<m + 1. 0 < i \<longrightarrow> cell dp i 0 = i \<and> cell ops i 0 = D) \<and>
              (\<forall>j<k. cell dp 0 j = j \<and> cell ops 0 j = I)"
  obtain dp ops where [simp]: "s = (dp, ops)" by (cases s)
  from s have d: "has_dims dp (m + 1) (n + 1)" "has_dims ops (m + 1) (n + 1)"
    and c: "\<forall>i<m + 1. 0 < i \<longrightarrow> cell dp i 0 = i \<and> cell ops i 0 = D"
    and r: "\<forall>j<k. cell dp 0 j = j \<and> cell ops 0 j = I"
    by simp_all
  have w: "cell (set_cell dp 0 k v) i' j' = (if i' = 0 \<and> j' = k then v else cell dp i' j')"
    "cell (set_cell ops 0 k u) i' j' = (if i' = 0 \<and> j' = k then u else cell ops i' j')"
    for v u i' j'
    using cell_set [OF d(1) _ k] cell_set [OF d(2) _ k] by simp_all
  have c': "\<forall>i<m + 1. 0 < i \<longrightarrow> cell (set_cell dp 0 k k) i 0 = i \<and> cell (set_cell ops 0 k I) i 0 = D"
    using c by (simp add: w)
  have r': "\<forall>j<Suc k. cell (set_cell dp 0 k k) 0 j = j \<and> cell (set_cell ops 0 k I) 0 j = I"
    using r by (simp add: w less_Suc_eq)
  show "case (case s of (dp, ops) \<Rightarrow> \<lambda>j. (set_cell dp 0 j j, set_cell ops 0 j I)) k of
          (dp, ops) \<Rightarrow> has_dims dp (m + 1) (n + 1) \<and> has_dims ops (m + 1) (n + 1) \<and>
            (\<forall>i<m + 1. 0 < i \<longrightarrow> cell dp i 0 = i \<and> cell ops i 0 = D) \<and>
            (\<forall>j<Suc k. cell dp 0 j = j \<and> cell ops 0 j = I)"
    using d c' r' by (simp add: has_dims_set)
qed simp

lemma init_tables_filled: "filled lower hyp ref 1 1 (init_tables (length hyp) (length ref))"
proof -
  let ?m = "length hyp" and ?n = "length ref"
  obtain dp1 ops1 where l1: "foldl (\<lambda>(dp, ops) i. (set_cell dp i 0 i, set_cell ops i 0 D))
          (new_table (?m + 1) (?n + 1) 0, new_table (?m + 1) (?n + 1) OpEmpty) [0..<?m + 1]
          = (dp1, ops1)"
    by fastforce
  from init_first_loop [of ?m ?n] have p1: "has_dims dp1 (?m + 1) (?n + 1)"
    "has_dims ops1 (?m + 1) (?n + 1)" "\<forall>i<?m + 1. cell dp1 i 0 = i \<and> cell ops1 i 0 = D"
    unfolding l1 by simp_all
  obtain dp2 ops2 where l2: "foldl (\<lambda>(dp, ops) j. (set_cell dp 0 j j, set_cell ops 0 j I))
          (dp1, ops1) [0..<?n + 1] = (dp2, ops2)"
    by fastforce
  from init_second_loop [OF p1] have p2: "has_dims dp2 (?m + 1) (?n + 1)"
    "has_dims ops2 (?m + 1) (?n + 1)"
    "\<forall>i<?m + 1. 0 < i \<longrightarrow> cell dp2 i 0 = i \<and> cell ops2 i 0 = D"
    "\<forall>j<?n + 1. cell dp2 0 j = j \<and> cell ops2 0 j = I"
    unfolding l2 by simp_all
  have it: "init_tables ?m ?n = (dp2, set_cell ops2 0 0 OpEmpty)"
    by (simp only: init_tables_def Let_def l1 l2 prod.case)
  have w0: "cell (set_cell ops2 0 0 u) i' j' = (if i' = 0 \<and> j' = 0 then u else cell ops2 i' j')"
    for u i' j'
    using cell_set [OF p2(2), of 0 0] by simp
  have cells: "cell dp2 i' j' = dp_rec lower hyp ref i' j' \<and>
               cell (set_cell ops2 0 0 OpEmpty) i' j' = ops_rec lower hyp ref i' j'"
    if b: "i' \<le> ?m" "j' \<le> ?n" and z: "i' = 0 \<or> j' = 0" for i' j'
  proof (cases "i' = 0")
    case True
    show ?thesis
    proof (cases "j' = 0")
      case True
      with \<open>i' = 0\<close> p2(4) show ?thesis by (simp add: w0)
    next
      case False
      with \<open>i' = 0\<close> p2(4) b show ?thesis
        by (simp add: w0 ops_rec_row0)
    qed
  next
    case False
    with z have "j' = 0" by simp
    with False p2(3) b show ?thesis
      by (simp add: w0 ops_rec_col0)
  qed
  show ?thesis
    unfolding it filled_def using p2(1,2) cells by (simp add: has_dims_set)
qed


lemma fill_cell_filled:
  assumes f: "filled lower hyp ref (Suc i) (Suc j) tabs"
    and i: "Suc i \<le> length hyp" and j: "Suc j \<le> length ref"
  shows "filled lower hyp ref (Suc i) (Suc (Suc j)) (fill_cell lower hyp ref (Suc i) (Suc j) tabs)"
proof -
  obtain dp ops where t: "tabs = (dp, ops)" by (cases tabs)
  note f' = f [unfolded filled_def t prod.case]
  from f' have d: "has_dims dp (length hyp + 1) (length ref + 1)"
    "has_dims ops (length hyp + 1) (length ref + 1)"
    by blast+
  from f' have c: "\<And>i' j'. i' \<le> length hyp \<Longrightarrow> j' \<le> length ref \<Longrightarrow>
              i' = 0 \<or> j' = 0 \<or> i' < Suc i \<or> (i' = Suc i \<and> j' < Suc j) \<Longrightarrow>
              cell dp i' j' = dp_rec lower hyp ref i' j' \<and> cell ops i' j' = ops_rec lower hyp ref i' j'"
    by blast
  have r1: "cell dp i j = dp_rec lower hyp ref i j"
    using c [of i j] i j by simp
  have r2: "cell dp i (Suc j) = dp_rec lower hyp ref i (Suc j)"
    using c [of i "Suc j"] i j by simp
  have r3: "cell dp (Suc i) j = dp_rec lower hyp ref (Suc i) j"
    using c [of "Suc i" j] i j by simp
  have w: "cell (set_cell dp (Suc i) (Suc j) v) i' j'
             = (if i' = Suc i \<and> j' = Suc j then v else cell dp i' j')"
    "cell (set_cell ops (Suc i) (Suc j) u) i' j'
             = (if i' = Suc i \<and> j' = Suc j then u else cell ops i' j')"
    for v u i' j'
    using cell_set [OF d(1), of "Suc i" "Suc j"] cell_set [OF d(2), of "Suc i" "Suc j"] i j
    by simp_all
  have fc: "fill_cell lower hyp ref (Suc i) (Suc j) tabs
              = (set_cell dp (Suc i) (Suc j) (dp_rec lower hyp ref (Suc i) (Suc j)),
                 set_cell ops (Suc i) (Suc j) (ops_rec lower hyp ref (Suc i) (Suc j)))"
    by (simp add: fill_cell_def t r1 r2 r3 Let_def)
  have "cell (set_cell dp (Suc i) (Suc j) (dp_rec lower hyp ref (Suc i) (Suc j))) i' j'
          = dp_rec lower hyp ref i' j' \<and>
        cell (set_cell ops (Suc i) (Suc j) (ops_rec lower hyp ref (Suc i) (Suc j))) i' j'
          = ops_rec lower hyp ref i' j'"
    if b: "i' \<le> length hyp" "j' \<le> length ref"
      and z: "i' = 0 \<or> j' = 0 \<or> i' < Suc i \<or> (i' = Suc i \<and> j' < Suc (Suc j))" for i' j'
  proof (cases "i' = Suc i \<and> j' = Suc j")
    case True
    then show ?thesis by (simp add: w)
  next
    case False
    with z have "i' = 0 \<or> j' = 0 \<or> i' < Suc i \<or> (i' = Suc i \<and> j' < Suc j)"
      by auto
    from c [OF b this] False show ?thesis by (simp add: w)
  qed
  then have "\<forall>i'\<le>length hyp. \<forall>j'\<le>length ref.
      i' = 0 \<or> j' = 0 \<or> i' < Suc i \<or> (i' = Suc i \<and> j' < Suc (Suc j)) \<longrightarrow>
      cell (set_cell dp (Suc i) (Suc j) (dp_rec lower hyp ref (Suc i) (Suc j))) i' j'
          = dp_rec lower hyp ref i' j' \<and>
      cell (set_cell ops (Suc i) (Suc j) (ops_rec lower hyp ref (Suc i) (Suc j))) i' j'
          = ops_rec lower hyp ref i' j'"
    by blast
  with has_dims_set [OF d(1)] has_dims_set [OF d(2)] show ?thesis
    unfolding fc filled_def prod.case by blast
qed

lemma fill_row_filled:
  assumes "filled lower hyp ref (Suc i) 1 tabs" and "Suc i \<le> length hyp"
  shows "filled lower hyp ref (Suc i) (length ref + 1)
           (foldl (\<lambda>tabs j. fill_cell lower hyp ref (Suc i) j tabs) tabs [1..<length ref + 1])"
proof (rule foldl_upt_inv [where P = "\<lambda>k s. filled lower hyp ref (Suc i) k s"])
  show "filled lower hyp ref (Suc i) 1 tabs" by (rule assms(1))
next
  fix k s
  assume k: "1 \<le> k" "k < length ref + 1" and s: "filled lower hyp ref (Suc i) k s"
  then obtain j where kj: "k = Suc j" by (cases k) simp_all
  show "filled lower hyp ref (Suc i) (Suc k) (fill_cell lower hyp ref (Suc i) k s)"
    unfolding kj by (rule fill_cell_filled) (use s k assms(2) kj in simp_all)
qed simp

lemma filled_next_row:
  assumes "filled lower hyp ref i (length ref + 1) tabs"
  shows "filled lower hyp ref (Suc i) 1 tabs"
proof -
  obtain dp ops where t: "tabs = (dp, ops)" by (cases tabs)
  note f = assms [unfolded filled_def t prod.case]
  have "cell dp i' j' = dp_rec lower hyp ref i' j' \<and> cell ops i' j' = ops_rec lower hyp ref i' j'"
    if b: "i' \<le> length hyp" "j' \<le> length ref"
      and z: "i' = 0 \<or> j' = 0 \<or> i' < Suc i \<or> (i' = Suc i \<and> j' < 1)" for i' j'
  proof -
    from z b have "i' = 0 \<or> j' = 0 \<or> i' < i \<or> (i' = i \<and> j' < length ref + 1)"
      by auto
    with f b show ?thesis by blast
  qed
  with f show ?thesis
    unfolding filled_def t prod.case by blast
qed

lemma fill_tables_filled: "filled lower hyp ref (length hyp + 1) 1 (fill_tables lower hyp ref)"
  unfolding fill_tables_def Let_def
proof (rule foldl_upt_inv [where P = "\<lambda>k s. filled lower hyp ref k 1 s"])
  show "filled lower hyp ref 1 1 (init_tables (length hyp) (length ref))"
    by (rule init_tables_filled)
next
  fix k s
  assume k: "1 \<le> k" "k < length hyp + 1" and s: "filled lower hyp ref k 1 s"
  then obtain i where ki: "k = Suc i" by (cases k) simp_all
  have "filled lower hyp ref (Suc i) (length ref + 1)
          (foldl (\<lambda>tabs j. fill_cell lower hyp ref (Suc i) j tabs) s [1..<length ref + 1])"
    by (rule fill_row_filled) (use s k ki in simp_all)
  then show "filled lower hyp ref (Suc k)
          1 (foldl (\<lambda>tabs j. fill_cell lower hyp ref k j tabs) s [1..<length ref + 1])"
    unfolding ki by (rule filled_next_row)
qed simp

lemma fill_tables_cells:
  assumes "i \<le> length hyp" and "j \<le> length ref"
  shows "cell (fst (fill_tables lower hyp ref)) i j = dp_rec lower hyp ref i j"
    and "cell (snd (fill_tables lower hyp ref)) i j = ops_rec lower hyp ref i j"
proof -
  obtain dp ops where t: "fill_tables lower hyp ref = (dp, ops)" by (cases "fill_tables lower hyp ref")
  note f = fill_tables_filled [of lower hyp ref, unfolded filled_def t prod.case]
  have "i = 0 \<or> j = 0 \<or> i < length hyp + 1 \<or> (i = length hyp + 1 \<and> j < 1)"
    using assms(1) by simp
  with f assms have "cell dp i j = dp_rec lower hyp ref i j \<and> cell ops i j = ops_rec lower hyp ref i j"
    by blast
  then show "cell (fst (fill_tables lower hyp ref)) i j = dp_rec lower hyp ref i j"
    and "cell (snd (fill_tables lower hyp ref)) i j = ops_rec lower hyp ref i j"
    by (simp_all add: t)
qed

subsection \<open>The table of \<open>_align_pair\<close>\<close>

lemma align_rec_col0: "0 < i \<Longrightarrow> align_rec lower seq1 seq2 i 0 = (i, Delete)"
  by (cases i) simp_all

lemma align_rec_row0: "0 < j \<Longrightarrow> align_rec lower seq1 seq2 0 j = (j, Insert)"
  by (cases j) simp_all

lemma align_init_first_loop:
  "has_dims (foldl (\<lambda>dp i. set_cell dp i 0 (Some (i, Delete)))
               (new_table (m + 1) (n + 1) None) [0..<m + 1]) (m + 1) (n + 1) \<and>
   (\<forall>i<m + 1. cell (foldl (\<lambda>dp i. set_cell dp i 0 (Some (i, Delete)))
                        (new_table (m + 1) (n + 1) None) [0..<m + 1]) i 0 = Some (i, Delete))"
proof (rule foldl_upt_inv [where P = "\<lambda>k dp. has_dims dp (m + 1) (n + 1) \<and>
         (\<forall>i<k. cell dp i 0 = Some (i, Delete))"])
  show "has_dims (new_table (m + 1) (n + 1) (None :: (nat \<times> align_op) option)) (m + 1) (n + 1) \<and>
        (\<forall>i<0. cell (new_table (m + 1) (n + 1) None) i 0 = Some (i, Delete))"
    by (simp add: has_dims_new)
next
  fix k and dp :: align_table
  assume k: "k < m + 1"
    and s: "has_dims dp (m + 1) (n + 1) \<and> (\<forall>i<k. cell dp i 0 = Some (i, Delete))"
  then have d: "has_dims dp (m + 1) (n + 1)" and c: "\<forall>i<k. cell dp i 0 = Some (i, Delete)"
    by simp_all
  have w: "cell (set_cell dp k 0 v) i' j' = (if i' = k \<and> j' = 0 then v else cell dp i' j')"
    for v i' j'
    using cell_set [OF d k] by simp
  have "\<forall>i<Suc k. cell (set_cell dp k 0 (Some (k, Delete))) i 0 = Some (i, Delete)"
    using c by (simp add: w less_Suc_eq)
  then show "has_dims (set_cell dp k 0 (Some (k, Delete))) (m + 1) (n + 1) \<and>
             (\<forall>i<Suc k. cell (set_cell dp k 0 (Some (k, Delete))) i 0 = Some (i, Delete))"
    using d by (simp add: has_dims_set)
qed simp

lemma align_init_second_loop:
  assumes "has_dims dp1 (m + 1) (n + 1)" and "\<forall>i<m + 1. cell dp1 i 0 = Some (i, Delete)"
  shows "has_dims (foldl (\<lambda>dp j. set_cell dp 0 j (Some (j, Insert))) dp1 [0..<n + 1])
           (m + 1) (n + 1) \<and>
         (\<forall>i<m + 1. 0 < i \<longrightarrow>
            cell (foldl (\<lambda>dp j. set_cell dp 0 j (Some (j, Insert))) dp1 [0..<n + 1]) i 0
              = Some (i, Delete)) \<and>
         (\<forall>j<n + 1.
            cell (foldl (\<lambda>dp j. set_cell dp 0 j (Some (j, Insert))) dp1 [0..<n + 1]) 0 j
              = Some (j, Insert))"
proof (rule foldl_upt_inv [where P = "\<lambda>k dp. has_dims dp (m + 1) (n + 1) \<and>
         (\<forall>i<m + 1. 0 < i \<longrightarrow> cell dp i 0 = Some (i, Delete)) \<and>
         (\<forall>j<k. cell dp 0 j = Some (j, Insert))"])
  show "has_dims dp1 (m + 1) (n + 1) \<and>
        (\<forall>i<m + 1. 0 < i \<longrightarrow> cell dp1 i 0 = Some (i, Delete)) \<and>
        (\<forall>j<0. cell dp1 0 j = Some (j, Insert))"
    using assms by simp
next
  fix k and dp :: align_table
  assume k: "k < n + 1"
    and s: "has_dims dp (m + 1) (n + 1) \<and>
            (\<forall>i<m + 1. 0 < i \<longrightarrow> cell dp i 0 = Some (i, Delete)) \<and>
            (\<forall>j<k. cell dp 0 j = Some (j, Insert))"
  then have d: "has_dims dp (m + 1) (n + 1)"
    and c: "\<forall>i<m + 1. 0 < i \<longrightarrow> cell dp i 0 = Some (i, Delete)"
    and r: "\<forall>j<k. cell dp 0 j = Some (j, Insert)"
    by simp_all
  have w: "cell (set_cell dp 0 k v) i' j' = (if i' = 0 \<and> j' = k then v else cell dp i' j')"
    for v i' j'
    using cell_set [OF d _ k] by simp
  have c': "\<forall>i<m + 1. 0 < i \<longrightarrow> cell (set_cell dp 0 k (Some (k, Insert))) i 0 = Some (i, Delete)"
    using c by (simp add: w)
  have r': "\<forall>j<Suc k. cell (set_cell dp 0 k (Some (k, Insert))) 0 j = Some (j, Insert)"
    using r by (simp add: w less_Suc_eq)
  show "has_dims (set_cell dp 0 k (Some (k, Insert))) (m + 1) (n + 1) \<and>
        (\<forall>i<m + 1. 0 < i \<longrightarrow> cell (set_cell dp 0 k (Some (k, Insert))) i 0 = Some (i, Delete)) \<and>
        (\<forall>j<Suc k. cell (set_cell dp 0 k (Some (k, Insert))) 0 j = Some (j, Insert))"
    using d c' r' by (simp add: has_dims_set)
qed simp

lemma init_align_table_filled:
  "align_filled lower seq1 seq2 1 1 (init_align_table (length seq1) (length seq2))"
proof -
  let ?m = "length seq1" and ?n = "length seq2"
  define dp1 where "dp1 = foldl (\<lambda>dp i. set_cell dp i 0 (Some (i, Delete)))
                (new_table (?m + 1) (?n + 1) None) [0..<?m + 1]"
  define dp2 where "dp2 = foldl (\<lambda>dp j. set_cell dp 0 j (Some (j, Insert))) dp1 [0..<?n + 1]"
  from align_init_first_loop [of ?m ?n] have p1: "has_dims dp1 (?m + 1) (?n + 1)"
    "\<forall>i<?m + 1. cell dp1 i 0 = Some (i, Delete)"
    unfolding dp1_def by blast+
  from align_init_second_loop [OF p1] have p2: "has_dims dp2 (?m + 1) (?n + 1)"
    "\<forall>i<?m + 1. 0 < i \<longrightarrow> cell dp2 i 0 = Some (i, Delete)"
    "\<forall>j<?n + 1. cell dp2 0 j = Some (j, Insert)"
    unfolding dp2_def by blast+
  have it: "init_align_table ?m ?n = set_cell dp2 0 0 (Some (0, Start))"
    by (simp only: init_align_table_def Let_def dp1_def dp2_def)
  have w0: "cell (set_cell dp2 0 0 u) i' j' = (if i' = 0 \<and> j' = 0 then u else cell dp2 i' j')"
    for u i' j'
    using cell_set [OF p2(1), of 0 0] by simp
  have cells: "cell (set_cell dp2 0 0 (Some (0, Start))) i' j' = Some (align_rec lower seq1 seq2 i' j')"
    if b: "i' \<le> ?m" "j' \<le> ?n" and z: "i' = 0 \<or> j' = 0" for i' j'
  proof (cases "i' = 0")
    case True
    show ?thesis
    proof (cases "j' = 0")
      case True
      with \<open>i' = 0\<close> show ?thesis by (simp add: w0)
    next
      case False
      with \<open>i' = 0\<close> p2(3) b show ?thesis
        by (simp add: w0 align_rec_row0)
    qed
  next
    case False
    with z have "j' = 0" by simp
    with False p2(2) b show ?thesis
      by (simp add: w0 align_rec_col0)
  qed
  have "\<forall>i'\<le>?m. \<forall>j'\<le>?n. i' = 0 \<or> j' = 0 \<or> i' < 1 \<or> (i' = 1 \<and> j' < 1) \<longrightarrow>
          cell (set_cell dp2 0 0 (Some (0, Start))) i' j' = Some (align_rec lower seq1 seq2 i' j')"
    using cells by auto
  with has_dims_set [OF p2(1)] show ?thesis
    unfolding it align_filled_def by blast
qed

lemma fill_align_cell_filled:
  assumes f: "align_filled lower seq1 seq2 (Suc i) (Suc j) dp"
    and i: "Suc i \<le> length seq1" and j: "Suc j \<le> length seq2"
  shows "align_filled lower seq1 seq2 (Suc i) (Suc (Suc j)) (fill_align_cell lower seq1 seq2 (Suc i) (Suc j) dp)"
proof -
  note f' = f [unfolded align_filled_def]
  from f' have d: "has_dims dp (length seq1 + 1) (length seq2 + 1)"
    by blast
  from f' have c: "\<And>i' j'. i' \<le> length seq1 \<Longrightarrow> j' \<le> length seq2 \<Longrightarrow>
              i' = 0 \<or> j' = 0 \<or> i' < Suc i \<or> (i' = Suc i \<and> j' < Suc j) \<Longrightarrow>
              cell dp i' j' = Some (align_rec lower seq1 seq2 i' j')"
    by blast
  have r1: "cost dp i j = fst (align_rec lower seq1 seq2 i j)"
    using c [of i j] i j by (simp add: cost_def)
  have r2: "cost dp i (Suc j) = fst (align_rec lower seq1 seq2 i (Suc j))"
    using c [of i "Suc j"] i j by (simp add: cost_def)
  have r3: "cost dp (Suc i) j = fst (align_rec lower seq1 seq2 (Suc i) j)"
    using c [of "Suc i" j] i j by (simp add: cost_def)
  have w: "cell (set_cell dp (Suc i) (Suc j) v) i' j'
             = (if i' = Suc i \<and> j' = Suc j then v else cell dp i' j')"
    for v i' j'
    using cell_set [OF d, of "Suc i" "Suc j"] i j by simp
  have fc: "fill_align_cell lower seq1 seq2 (Suc i) (Suc j) dp
              = set_cell dp (Suc i) (Suc j) (Some (align_rec lower seq1 seq2 (Suc i) (Suc j)))"
    by (simp add: fill_align_cell_def r1 r2 r3 Let_def)
  have "cell (set_cell dp (Suc i) (Suc j) (Some (align_rec lower seq1 seq2 (Suc i) (Suc j)))) i' j'
          = Some (align_rec lower seq1 seq2 i' j')"
    if b: "i' \<le> length seq1" "j' \<le> length seq2"
      and z: "i' = 0 \<or> j' = 0 \<or> i' < Suc i \<or> (i' = Suc i \<and> j' < Suc (Suc j))" for i' j'
  proof (cases "i' = Suc i \<and> j' = Suc j")
    case True
    then show ?thesis by (simp add: w)
  next
    case False
    with z have "i' = 0 \<or> j' = 0 \<or> i' < Suc i \<or> (i' = Suc i \<and> j' < Suc j)"
      by auto
    from c [OF b this] False show ?thesis by (simp add: w)
  qed
  then have "\<forall>i'\<le>length seq1. \<forall>j'\<le>length seq2.
      i' = 0 \<or> j' = 0 \<or> i' < Suc i \<or> (i' = Suc i \<and> j' < Suc (Suc j)) \<longrightarrow>
      cell (set_cell dp (Suc i) (Suc j) (Some (align_rec lower seq1 seq2 (Suc i) (Suc j)))) i' j'
          = Some (align_rec lower seq1 seq2 i' j')"
    by blast
  with has_dims_set [OF d] show ?thesis
    unfolding fc align_filled_def by blast
qed

lemma fill_align_row_filled:
  assumes "align_filled lower seq1 seq2 (Suc i) 1 dp" and "Suc i \<le> length seq1"
  shows "align_filled lower seq1 seq2 (Suc i) (length seq2 + 1)
           (foldl (\<lambda>dp j. fill_align_cell lower seq1 seq2 (Suc i) j dp) dp [1..<length seq2 + 1])"
proof (rule foldl_upt_inv [where P = "\<lambda>k s. align_filled lower seq1 seq2 (Suc i) k s"])
  show "align_filled lower seq1 seq2 (Suc i) 1 dp" by (rule assms(1))
next
  fix k s
  assume k: "1 \<le> k" "k < length seq2 + 1" and s: "align_filled lower seq1 seq2 (Suc i) k s"
  then obtain j where kj: "k = Suc j" by (cases k) simp_all
  show "align_filled lower seq1 seq2 (Suc i) (Suc k) (fill_align_cell lower seq1 seq2 (Suc i) k s)"
    unfolding kj by (rule fill_align_cell_filled) (use s k assms(2) kj in simp_all)
qed simp

lemma align_filled_next_row:
  assumes "align_filled lower seq1 seq2 i (length seq2 + 1) dp"
  shows "align_filled lower seq1 seq2 (Suc i) 1 dp"
proof -
  note f = assms [unfolded align_filled_def]
  have "cell dp i' j' = Some (align_rec lower seq1 seq2 i' j')"
    if b: "i' \<le> length seq1" "j' \<le> length seq2"
      and z: "i' = 0 \<or> j' = 0 \<or> i' < Suc i \<or> (i' = Suc i \<and> j' < 1)" for i' j'
  proof -
    from z b have "i' = 0 \<or> j' = 0 \<or> i' < i \<or> (i' = i \<and> j' < length seq2 + 1)"
      by auto
    with f b show ?thesis by blast
  qed
  with f show ?thesis
    unfolding align_filled_def by blast
qed

lemma fill_align_table_filled:
  "align_filled lower seq1 seq2 (length seq1 + 1) 1 (fill_align_table lower seq1 seq2)"
  unfolding fill_align_table_def Let_def
proof (rule foldl_upt_inv [where P = "\<lambda>k s. align_filled lower seq1 seq2 k 1 s"])
  show "align_filled lower seq1 seq2 1 1 (init_align_table (length seq1) (length seq2))"
    by (rule init_align_table_filled)
next
  fix k s
  assume k: "1 \<le> k" "k < length seq1 + 1" and s: "align_filled lower seq1 seq2 k 1 s"
  then obtain i where ki: "k = Suc i" by (cases k) simp_all
  have "align_filled lower seq1 seq2 (Suc i) (length seq2 + 1)
          (foldl (\<lambda>dp j. fill_align_cell lower seq1 seq2 (Suc i) j dp) s [1..<length seq2 + 1])"
    by (rule fill_align_row_filled) (use s k ki in simp_all)
  then show "align_filled lower seq1 seq2 (Suc k) 1
          (foldl (\<lambda>dp j. fill_align_cell lower seq1 seq2 k j dp) s [1..<length seq2 + 1])"
    unfolding ki by (rule align_filled_next_row)
qed simp

lemma fill_align_table_cells:
  assumes "i \<le> length seq1" and "j \<le> length seq2"
  shows "cell (fill_align_table lower seq1 seq2) i j = Some (align_rec lower seq1 seq2 i j)"
proof -
  note f = fill_align_table_filled [of lower seq1 seq2, unfolded align_filled_def]
  have "i = 0 \<or> j = 0 \<or> i < length seq1 + 1 \<or> (i = length seq1 + 1 \<and> j < 1)"
    using assms(1) by simp
  with f assms show ?thesis
    by blast
qed

section \<open>Properties of the WER computation\<close>

declare count_ops.simps [simp del]

subsection \<open>Lower-casing ASCII is idempotent\<close>

lemma ascii_lower_char_idem: "ascii_lower_char (ascii_lower_char c) = ascii_lower_char c"
  by (simp add: ascii_lower_char_def Let_def)

lemma ascii_lower_idem: "ascii_lower (ascii_lower w) = ascii_lower w"
  by (simp add: ascii_lower_def ascii_lower_char_idem)

subsection \<open>Neighbouring cells of the Levenshtein table\<close>

lemma lev_zero [simp]: "lev a b i 0 = i"
  by (cases i) simp_all

lemma lev_step_j: "lev a b i (Suc j) \<le> lev a b i j + 1"
  by (cases i) simp_all

lemma lev_step_i: "lev a b (Suc i) j \<le> lev a b i j + 1"
  by (cases j) simp_all

lemma lev_back_i: "lev a b i j \<le> lev a b (Suc i) j + 1"
proof (induction j)
  case 0
  show ?case by simp
next
  case (Suc j)
  have "lev a b i (Suc j) \<le> lev a b i j + 1" by (rule lev_step_j)
  with Suc show ?case by simp
qed

lemma lev_back_j: "lev a b i j \<le> lev a b i (Suc j) + 1"
proof (induction i)
  case 0
  show ?case by simp
next
  case (Suc i)
  have "lev a b (Suc i) j \<le> lev a b i j + 1" by (rule lev_step_i)
  with Suc show ?case by simp
qed

text \<open>On equal items the diagonal neighbour is already the minimum.\<close>

lemma lev_match: "a ! i = b ! j \<Longrightarrow> lev a b (Suc i) (Suc j) = lev a b i j"
  using lev_back_i [of a b i j] lev_back_j [of a b i j] by simp

subsection \<open>The alignment table is the Levenshtein table of the folded sequences\<close>

lemma dp_rec_eq_lev:
  "i \<le> length hyp \<Longrightarrow> j \<le> length ref \<Longrightarrow>
   dp_rec lower hyp ref i j = lev (map lower hyp) (map lower ref) i j"
proof (induction lower hyp ref i j rule: dp_rec.induct)
  case (3 lower hyp ref i j)
  show ?case
  proof (cases "lower (hyp ! i) = lower (ref ! j)")
    case True
    then have "map lower hyp ! i = map lower ref ! j"
      using 3 by simp
    then have "lev (map lower hyp) (map lower ref) (Suc i) (Suc j)
                 = lev (map lower hyp) (map lower ref) i j"
      by (rule lev_match)
    then show ?thesis using 3 True by simp
  next
    case False
    then have "map lower hyp ! i \<noteq> map lower ref ! j"
      using 3 by simp
    then show ?thesis using 3 False by simp
  qed
qed simp_all

subsection \<open>The counting loop\<close>

lemma count_ops_0_0: "count_ops t 0 0 c = c"
  by (subst count_ops.simps) simp

lemma count_ops_0_Suc:
  "count_ops t 0 (Suc j) c = count_ops t 0 j (c\<lparr>ins := ins c + 1\<rparr>)"
  by (subst count_ops.simps) simp

lemma count_ops_Suc_0:
  "count_ops t (Suc i) 0 c = count_ops t i 0 (c\<lparr>dels := dels c + 1\<rparr>)"
  by (subst count_ops.simps) simp

lemma count_ops_Suc_Suc:
  "count_ops t (Suc i) (Suc j) c =
     (case cell t (Suc i) (Suc j) of
        M \<Rightarrow> count_ops t i j c
      | S \<Rightarrow> count_ops t i j (c\<lparr>subs := subs c + 1\<rparr>)
      | D \<Rightarrow> count_ops t i (Suc j) (c\<lparr>dels := dels c + 1\<rparr>)
      | _ \<Rightarrow> count_ops t (Suc i) j (c\<lparr>ins := ins c + 1\<rparr>))"
  by (subst count_ops.simps) (simp split: op_code.splits)

lemmas count_ops_unfold = count_ops_0_0 count_ops_0_Suc count_ops_Suc_0 count_ops_Suc_Suc

text \<open>Every step of the loop counts exactly the cost by which the cell value drops.\<close>

lemma count_ops_sum:
  "\<forall>i'\<le>length hyp. \<forall>j'\<le>length ref. cell t i' j' = ops_rec lower hyp ref i' j' \<Longrightarrow>
   i \<le> length hyp \<Longrightarrow> j \<le> length ref \<Longrightarrow>
   subs (count_ops t i j c) + dels (count_ops t i j c) + ins (count_ops t i j c)
   = subs c + dels c + ins c + dp_rec lower hyp ref i j"
proof (induction t i j c rule: count_ops.induct)
  case (1 t i j c)
  note tab = "1.prems"(1)
  show ?case
  proof (cases i)
    case 0
    then show ?thesis using 1 by (cases j) (simp_all add: count_ops_unfold)
  next
    case (Suc i')
    show ?thesis
    proof (cases j)
      case 0
      then show ?thesis using 1 Suc by (simp add: count_ops_unfold)
    next
      case (Suc j')
      have o: "cell t (Suc i') (Suc j') = ops_rec lower hyp ref (Suc i') (Suc j')"
        using tab "1.prems"(2,3) \<open>i = Suc i'\<close> Suc by simp
      show ?thesis
        using 1 \<open>i = Suc i'\<close> Suc o
        by (cases "ops_rec lower hyp ref (Suc i') (Suc j')")
           (auto simp: count_ops_unfold Let_def split: if_splits)
    qed
  qed
qed

lemma get_alignment_details_snd:
  "get_alignment_details lower hyp ref
     = count_ops (snd (fill_tables lower hyp ref)) (length hyp) (length ref)
         \<lparr>subs = 0, dels = 0, ins = 0\<rparr>"
  by (simp add: get_alignment_details_def split: prod.splits)

lemma fill_tables_ops:
  "\<forall>i'\<le>length hyp. \<forall>j'\<le>length ref.
     cell (snd (fill_tables lower hyp ref)) i' j' = ops_rec lower hyp ref i' j'"
  by (simp add: fill_tables_cells)

lemma get_alignment_details_sum:
  "subs (get_alignment_details lower hyp ref) + dels (get_alignment_details lower hyp ref)
     + ins (get_alignment_details lower hyp ref)
   = editdistance_eval (map lower hyp) (map lower ref)"
  using count_ops_sum [OF fill_tables_ops, where i = "length hyp" and j = "length ref"]
  by (simp add: get_alignment_details_snd dp_rec_eq_lev editdistance_eval_def)

subsection \<open>The record that is returned\<close>

text \<open>The guard on the reference length keeps the division from raising.\<close>

lemma compute_standard_wer_Inr:
  "compute_standard_wer lower hyp ref =
     Inr \<lparr>wer = (if ref = [] then 0 else of_nat (editdistance_eval hyp ref) / of_nat (length ref)),
          distance = editdistance_eval hyp ref, reference_length = length ref,
          substitutions = subs (get_alignment_details lower hyp ref),
          deletions = dels (get_alignment_details lower hyp ref),
          insertions = ins (get_alignment_details lower hyp ref)\<rparr>"
  by (simp add: compute_standard_wer_def py_truediv_def Let_def)

subsection \<open>Sequences without a common token\<close>

lemma dp_rec_mismatch:
  "\<forall>x\<in>set hyp. \<forall>y\<in>set ref. lower x \<noteq> lower y \<Longrightarrow>
   i \<le> length hyp \<Longrightarrow> j \<le> length ref \<Longrightarrow> dp_rec lower hyp ref i j = max i j"
proof (induction lower hyp ref i j rule: dp_rec.induct)
  case (3 lower hyp ref i j)
  then have "lower (hyp ! i) \<noteq> lower (ref ! j)"
    by simp
  then show ?case using 3 by simp
qed simp_all

lemma lev_mismatch:
  "\<forall>x\<in>set a. \<forall>y\<in>set b. x \<noteq> y \<Longrightarrow> i \<le> length a \<Longrightarrow> j \<le> length b \<Longrightarrow>
   lev a b i j = max i j"
proof (induction a b i j rule: lev.induct)
  case (3 a b i j)
  then have "a ! i \<noteq> b ! j"
    by simp
  then show ?case using 3 by simp
qed simp_all

text \<open>On the diagonal the substitution is strictly cheapest, so the cell records \<open>S\<close>.\<close>

lemma ops_rec_mismatch_diag:
  "\<forall>x\<in>set hyp. \<forall>y\<in>set ref. lower x \<noteq> lower y \<Longrightarrow>
   i < length hyp \<Longrightarrow> i < length ref \<Longrightarrow> ops_rec lower hyp ref (Suc i) (Suc i) = S"
  by (simp add: dp_rec_mismatch Let_def)

lemma count_ops_mismatch_diag:
  "\<forall>i'\<le>length hyp. \<forall>j'\<le>length ref. cell t i' j' = ops_rec lower hyp ref i' j' \<Longrightarrow>
   \<forall>x\<in>set hyp. \<forall>y\<in>set ref. lower x \<noteq> lower y \<Longrightarrow>
   i \<le> length hyp \<Longrightarrow> i \<le> length ref \<Longrightarrow>
   count_ops t i i c = c\<lparr>subs := subs c + i\<rparr>"
proof (induction i arbitrary: c)
  case 0
  show ?case by (simp add: count_ops_0_0)
next
  case (Suc i)
  have "ops_rec lower hyp ref (Suc i) (Suc i) = S"
    using Suc.prems by (intro ops_rec_mismatch_diag) simp_all
  then have "cell t (Suc i) (Suc i) = S"
    using Suc.prems by simp
  then have "count_ops t (Suc i) (Suc i) c = count_ops t i i (c\<lparr>subs := subs c + 1\<rparr>)"
    by (simp only: count_ops_Suc_Suc op_code.case)
  also have "\<dots> = c\<lparr>subs := subs c + Suc i\<rparr>"
    using Suc by simp
  finally show ?case .
qed

subsection \<open>Case variants leave the operation counts unchanged\<close>

text \<open>These three lemmas assume that lower-casing a lower-cased token changes nothing.\<close>

lemma dp_rec_lower:
  assumes "\<forall>w. lower (lower w) = lower w" and "i \<le> length hyp" and "j \<le> length ref"
  shows "dp_rec lower (map lower hyp) (map lower ref) i j = dp_rec lower hyp ref i j"
proof -
  have m: "map lower (map lower xs) = map lower xs" for xs
    by (induction xs) (simp_all add: assms(1))
  have "dp_rec lower (map lower hyp) (map lower ref) i j
          = lev (map lower (map lower hyp)) (map lower (map lower ref)) i j"
    by (rule dp_rec_eq_lev) (use assms in simp_all)
  also have "\<dots> = dp_rec lower hyp ref i j"
    unfolding m by (rule dp_rec_eq_lev [symmetric]) (use assms in simp_all)
  finally show ?thesis .
qed

lemma ops_rec_lower:
  assumes "\<forall>w. lower (lower w) = lower w" and "i \<le> length hyp" and "j \<le> length ref"
  shows "ops_rec lower (map lower hyp) (map lower ref) i j = ops_rec lower hyp ref i j"
proof (cases i)
  case 0
  then show ?thesis by (cases j) simp_all
next
  case (Suc i')
  show ?thesis
  proof (cases j)
    case 0
    with Suc show ?thesis by simp
  next
    case (Suc j')
    with \<open>i = Suc i'\<close> assms show ?thesis
      by (simp add: dp_rec_lower Let_def)
  qed
qed

lemma count_ops_agree:
  "\<forall>i'\<le>i. \<forall>j'\<le>j. cell t i' j' = cell t' i' j' \<Longrightarrow> count_ops t i j c = count_ops t' i j c"
proof (induction t i j c rule: count_ops.induct)
  case (1 t i j c)
  show ?case
  proof (cases i)
    case 0
    then show ?thesis using 1 by (cases j) (simp_all add: count_ops_unfold)
  next
    case (Suc i')
    show ?thesis
    proof (cases j)
      case 0
      then show ?thesis using 1 Suc by (simp add: count_ops_unfold)
    next
      case (Suc j')
      have o: "cell t (Suc i') (Suc j') = cell t' (Suc i') (Suc j')"
        using "1.prems" \<open>i = Suc i'\<close> Suc by simp
      show ?thesis
        using 1 \<open>i = Suc i'\<close> Suc o
        by (cases "cell t' (Suc i') (Suc j')") (simp_all add: count_ops_Suc_Suc)
    qed
  qed
qed

lemma get_alignment_details_lower:
  assumes "\<forall>w. lower (lower w) = lower w"
  shows "get_alignment_details lower (map lower hyp) (map lower ref)
           = get_alignment_details lower hyp ref"
proof -
  have "\<forall>i'\<le>length hyp. \<forall>j'\<le>length ref.
          cell (snd (fill_tables lower (map lower hyp) (map lower ref))) i' j'
            = cell (snd (fill_tables lower hyp ref)) i' j'"
    by (simp add: fill_tables_cells ops_rec_lower [OF assms])
  from count_ops_agree [OF this] show ?thesis
    by (simp add: get_alignment_details_snd)
qed

text \<open>
  Whatever \<open>lower\<close> is, the three counts add up to the edit distance of the folded
  sequences: had the distance been taken on the folded tokens, counts and distance would
  agree on every input.
\<close>

lemma counts_sum_is_folded_distance:
  "\<exists>r. compute_standard_wer lower hyp ref = Inr r \<and>
       substitutions r + deletions r + insertions r
         = editdistance_eval (map lower hyp) (map lower ref)"
  by (simp add: compute_standard_wer_Inr get_alignment_details_sum)

subsection \<open>Claims about \<open>compute_standard_wer\<close>\<close>

text \<open>
  C1, where it fails: the three counts of the returned record do not add up to its distance
  when a hypothesis token and a reference token differ but have the same lower-casing.
  The distance comes from \<open>editdistance.eval\<close> on the tokens as given, the counts from
  the table that compares \<open>token.lower()\<close>. For two such one-token sequences the record
  has distance 1 and no substitution, deletion or insertion.
\<close>

theorem case_difference_breaks_count_sum:
  assumes "x \<noteq> y" and "lower x = lower y"
  shows "compute_standard_wer lower [x] [y] =
           Inr \<lparr>wer = 1, distance = 1, reference_length = 1, substitutions = 0, deletions = 0,
                insertions = 0\<rparr>"
proof -
  have d: "editdistance_eval [x] [y] = 1"
    using assms(1) by (simp add: editdistance_eval_def)
  have "cell (snd (fill_tables lower [x] [y])) (Suc 0) (Suc 0) = ops_rec lower [x] [y] (Suc 0) (Suc 0)"
    by (simp add: fill_tables_cells del: ops_rec.simps)
  then have "cell (snd (fill_tables lower [x] [y])) (Suc 0) (Suc 0) = M"
    using assms(2) by simp
  then have c: "get_alignment_details lower [x] [y] = \<lparr>subs = 0, dels = 0, ins = 0\<rparr>"
    by (simp add: get_alignment_details_snd count_ops_Suc_Suc count_ops_0_0)
  show ?thesis
    by (simp add: compute_standard_wer_Inr d c)
qed

theorem case_difference_breaks_count_sum_witness:
  "''A'' \<noteq> ''a'' \<and> ascii_lower ''A'' = ascii_lower ''a'' \<and>
   compute_standard_wer ascii_lower [''A''] [''a''] =
     Inr \<lparr>wer = 1, distance = 1, reference_length = 1, substitutions = 0, deletions = 0,
          insertions = 0\<rparr> \<and>
   substitutions (projr (compute_standard_wer ascii_lower [''A''] [''a''])) +
   deletions (projr (compute_standard_wer ascii_lower [''A''] [''a''])) +
   insertions (projr (compute_standard_wer ascii_lower [''A''] [''a''])) \<noteq>
   distance (projr (compute_standard_wer ascii_lower [''A''] [''a'']))"
proof -
  have n: "''A'' \<noteq> ''a''" by simp
  have l: "ascii_lower ''A'' = ascii_lower ''a''" by code_simp
  from case_difference_breaks_count_sum [OF n l] n l show ?thesis
    by simp
qed

text \<open>
  C2, evaluated at an input where it fails: replacing tokens by case variants changes the
  distance and the rate of the record (2 and 1 against 0 and 0 on the lower-case inputs),
  while the three counts stay the same (\<open>get_alignment_details_lower\<close>).
\<close>

theorem case_variant_changes_distance:
  "compute_standard_wer ascii_lower [''Hello'', ''world''] [''hello'', ''World''] =
     Inr \<lparr>wer = 1, distance = 2, reference_length = 2, substitutions = 0, deletions = 0,
          insertions = 0\<rparr> \<and>
   compute_standard_wer ascii_lower (map ascii_lower [''Hello'', ''world''])
       (map ascii_lower [''hello'', ''World'']) =
     Inr \<lparr>wer = 0, distance = 0, reference_length = 2, substitutions = 0, deletions = 0,
          insertions = 0\<rparr>"
  by code_simp

text \<open>
  C5: two sequences of the same length \<open>L > 0\<close> with no token in common under case-folded
  comparison give distance \<open>L\<close>, \<open>L\<close> substitutions, no deletion, no insertion and a rate
  of 1.
\<close>

theorem total_mismatch:
  assumes "length hyp = length ref" and "0 < length ref"
    and "\<forall>x\<in>set hyp. \<forall>y\<in>set ref. lower x \<noteq> lower y"
  shows "compute_standard_wer lower hyp ref =
           Inr \<lparr>wer = 1, distance = length ref, reference_length = length ref,
                substitutions = length ref, deletions = 0, insertions = 0\<rparr>"
proof -
  have ne: "\<forall>x\<in>set hyp. \<forall>y\<in>set ref. x \<noteq> y"
    using assms(3) by auto
  have d: "editdistance_eval hyp ref = length ref"
    using lev_mismatch [OF ne, of "length hyp" "length ref"] assms(1)
    by (simp add: editdistance_eval_def)
  have c: "get_alignment_details lower hyp ref = \<lparr>subs = length ref, dels = 0, ins = 0\<rparr>"
    using count_ops_mismatch_diag [OF fill_tables_ops assms(3), where i = "length ref"] assms(1)
    by (simp add: get_alignment_details_snd)
  show ?thesis
    using assms(2) by (simp add: compute_standard_wer_Inr d c)
qed

theorem total_mismatch_witness:
  "length [''a'', ''B''] = length [''c'', ''d''] \<and> 0 < length [''c'', ''d''] \<and>
   ascii_lower ''a'' \<noteq> ascii_lower ''c'' \<and> ascii_lower ''a'' \<noteq> ascii_lower ''d'' \<and>
   ascii_lower ''B'' \<noteq> ascii_lower ''c'' \<and> ascii_lower ''B'' \<noteq> ascii_lower ''d'' \<and>
   compute_standard_wer ascii_lower [''a'', ''B''] [''c'', ''d''] =
     Inr \<lparr>wer = 1, distance = 2, reference_length = 2, substitutions = 2, deletions = 0,
          insertions = 0\<rparr>"
proof -
  have h: "\<forall>x\<in>set [''a'', ''B'']. \<forall>y\<in>set [''c'', ''d'']. ascii_lower x \<noteq> ascii_lower y"
    by code_simp
  from total_mismatch [where hyp = "[''a'', ''B'']" and ref = "[''c'', ''d'']", OF _ _ h] h
  show ?thesis by simp
qed

text \<open>
  C8: with an empty reference the rate is 0 and no division error is raised; with a
  non-empty reference a record is returned whose rate is its distance divided by the
  reference length.
\<close>

theorem wer_guarded_division:
  "(\<exists>r. compute_standard_wer lower hyp [] = Inr r \<and> wer r = 0) \<and>
   (ref \<noteq> [] \<longrightarrow>
      (\<exists>r. compute_standard_wer lower hyp ref = Inr r \<and>
           wer r = of_nat (distance r) / of_nat (length ref)))"
  by (simp add: compute_standard_wer_Inr)

theorem wer_guarded_division_witness:
  "[''a'', ''c''] \<noteq> [] \<and>
   (\<exists>r. compute_standard_wer ascii_lower [''a'', ''b'', ''c''] [''a'', ''c''] = Inr r \<and>
        wer r = 1 / 2 \<and> distance r = 1)"
proof -
  have d: "editdistance_eval [''a'', ''b'', ''c''] [''a'', ''c''] = 1"
    by code_simp
  from wer_guarded_division [where lower = ascii_lower and hyp = "[''a'', ''b'', ''c'']"
      and ref = "[''a'', ''c'']"]
  show ?thesis
    by (auto simp: compute_standard_wer_Inr d)
qed

section \<open>Properties of the lattice\<close>

subsection \<open>\<open>max\<close> with a key\<close>

lemma max_fold_mem:
  "foldl (\<lambda>best y. if key y > key best then y else best) x xs \<in> set (x # xs)"
proof (induction xs arbitrary: x)
  case Nil
  show ?case by simp
next
  case (Cons y ys)
  show ?case using Cons [of "if key y > key x then y else x"] Cons [of x] 
    by (auto split: if_splits)
qed

lemma py_max_key_mem: "py_max_key key xs = Inr b \<Longrightarrow> b \<in> set xs"
  using max_fold_mem [of key] by (cases xs) auto

lemma py_max_key_nonempty: "xs \<noteq> [] \<Longrightarrow> \<exists>b. py_max_key key xs = Inr b"
  by (cases xs) auto

lemma max_fold_apsnd:
  assumes "\<And>a b. (f a < f b) = (a < b)"
  shows "foldl (\<lambda>best y. if snd y > snd best then y else best) (apsnd f x) (map (apsnd f) xs)
         = apsnd f (foldl (\<lambda>best y. if snd y > snd best then y else best) x xs)"
proof (induction xs arbitrary: x)
  case Nil
  show ?case by simp
next
  case (Cons y ys)
  show ?case using Cons [of y] Cons [of x] by (cases "snd x < snd y") (simp_all add: assms)
qed

lemma py_max_key_apsnd:
  assumes "\<And>a b. (f a < f b) = (a < b)"
  shows "py_max_key snd (map (apsnd f) xs) = map_sum id (apsnd f) (py_max_key snd xs)"
  using max_fold_apsnd [of f, OF assms] by (cases xs) simp_all

subsection \<open>Dictionaries with defaults\<close>

lemma dd_update_keys:
  "map fst (dd_update k dflt f d) = (if k \<in> fst ` set d then map fst d else map fst d @ [k])"
proof (induction d)
  case Nil
  show ?case by simp
next
  case (Cons kv d)
  obtain k' v where kv: "kv = (k', v)" by (cases kv)
  show ?case
  proof (cases "k' = k")
    case True
    then show ?thesis by (simp add: kv)
  next
    case False
    then show ?thesis using Cons by (simp add: kv)
  qed
qed

lemma dd_get_dd_update:
  "dd_get (dd_update k dflt f d) dflt k' = (if k' = k then f (dd_get d dflt k) else dd_get d dflt k')"
  by (induction d) (auto simp: dd_get_def)

subsection \<open>Grouping the nodes by position\<close>

lemma group_nodes_snoc:
  "group_nodes score (ns @ [n]) =
     dd_update (position n) [] (\<lambda>l. l @ [(word n, score n)]) (group_nodes score ns)"
  by (simp add: group_nodes_def)

lemma group_nodes_keys_set: "set (map fst (group_nodes score ns)) = position ` set ns"
proof (induction ns rule: rev_induct)
  case Nil
  show ?case by (simp add: group_nodes_def)
next
  case (snoc n ns)
  then show ?case by (auto simp: group_nodes_snoc dd_update_keys)
qed

lemma group_nodes_keys_distinct: "distinct (map fst (group_nodes score ns))"
proof (induction ns rule: rev_induct)
  case Nil
  show ?case by (simp add: group_nodes_def)
next
  case (snoc n ns)
  then show ?case by (auto simp: group_nodes_snoc dd_update_keys)
qed

lemma group_nodes_get:
  "dd_get (group_nodes score ns) [] p =
     map (\<lambda>n. (word n, score n)) (filter (\<lambda>n. position n = p) ns)"
proof (induction ns arbitrary: p rule: rev_induct)
  case Nil
  show ?case by (simp add: group_nodes_def dd_get_def)
next
  case (snoc n ns)
  then show ?case by (simp add: group_nodes_snoc dd_get_dd_update)
qed

lemma group_nodes_positions:
  "sort (map fst (group_nodes score ns)) = sorted_list_of_set (position ` set ns)"
proof -
  let ?ks = "map fst (group_nodes score ns)"
  have "sorted_list_of_set (set ?ks) = sort (remdups ?ks)"
    by (rule sorted_list_of_set_sort_remdups)
  also have "remdups ?ks = ?ks"
    by (rule distinct_remdups_id) (rule group_nodes_keys_distinct)
  finally show ?thesis
    by (simp only: group_nodes_keys_set)
qed

subsection \<open>Picking one word for each position\<close>

lemma pick_best_Inr:
  "\<forall>pos\<in>set ps. dd_get pw [] pos \<noteq> [] \<Longrightarrow>
   \<exists>ws. pick_best pw ps = Inr ws \<and>
        list_all2 (\<lambda>pos w. \<exists>b. py_max_key snd (dd_get pw [] pos) = Inr b \<and> fst b = w) ps ws"
proof (induction ps)
  case Nil
  show ?case by simp
next
  case (Cons pos rest)
  then obtain b where b: "py_max_key snd (dd_get pw [] pos) = Inr b"
    using py_max_key_nonempty [of "dd_get pw [] pos" snd] by auto
  from Cons obtain ws where ws: "pick_best pw rest = Inr ws"
    "list_all2 (\<lambda>pos w. \<exists>b. py_max_key snd (dd_get pw [] pos) = Inr b \<and> fst b = w) rest ws"
    by auto
  show ?case using b ws by (cases b) auto
qed

lemma consensus_words:
  fixes score :: "LatticeNode \<Rightarrow> 'k::linorder"
  shows "\<exists>ws. pick_best (group_nodes score ns) (sort (map fst (group_nodes score ns))) = Inr ws \<and>
     list_all2 (\<lambda>pos w. \<exists>n\<in>set ns. position n = pos \<and> word n = w)
       (sorted_list_of_set (position ` set ns)) ws"
proof -
  let ?pw = "group_nodes score ns"
  let ?ps = "sorted_list_of_set (position ` set ns)"
  have ps: "sort (map fst ?pw) = ?ps" by (rule group_nodes_positions)
  have ne: "\<forall>pos\<in>set ?ps. dd_get ?pw [] pos \<noteq> []"
    by (auto simp: group_nodes_get filter_empty_conv)
  from pick_best_Inr [OF ne] obtain ws where ws: "pick_best ?pw ?ps = Inr ws"
    "list_all2 (\<lambda>pos w. \<exists>b. py_max_key snd (dd_get ?pw [] pos) = Inr b \<and> fst b = w) ?ps ws"
    by auto
  have "list_all2 (\<lambda>pos w. \<exists>n\<in>set ns. position n = pos \<and> word n = w) ?ps ws"
  proof (rule list_all2_mono [OF ws(2)])
    fix pos w
    assume "\<exists>b. py_max_key snd (dd_get ?pw [] pos) = Inr b \<and> fst b = w"
    then obtain b where "py_max_key snd (dd_get ?pw [] pos) = Inr b" "fst b = w" by auto
    then have "b \<in> set (map (\<lambda>n. (word n, score n)) (filter (\<lambda>n. position n = pos) ns))"
      using py_max_key_mem [of snd "dd_get ?pw [] pos" b] by (simp add: group_nodes_get)
    then show "\<exists>n\<in>set ns. position n = pos \<and> word n = w"
      using \<open>fst b = w\<close> by auto
  qed
  then show ?thesis using ws(1) ps by auto
qed

text \<open>
  C4: the voting consensus of a lattice has one word for each distinct node position, in
  ascending order of the positions, and the word emitted for a position is the word of a
  node at that position; so its length is the number of distinct positions.
\<close>

theorem voting_consensus_positions:
  "\<exists>ws. voting_consensus L = Inr ws \<and> length ws = card (position ` set (nodes L)) \<and>
     (\<forall>k<length ws. \<exists>n\<in>set (nodes L).
        position n = sorted_list_of_set (position ` set (nodes L)) ! k \<and> word n = ws ! k)"
proof -
  from consensus_words [of "\<lambda>n. card (sources n)" "nodes L"]
  obtain ws where ws: "voting_consensus L = Inr ws"
    "list_all2 (\<lambda>pos w. \<exists>n\<in>set (nodes L). position n = pos \<and> word n = w)
       (sorted_list_of_set (position ` set (nodes L))) ws"
    by (auto simp: voting_consensus_def Let_def)
  have len: "length ws = card (position ` set (nodes L))"
    using list_all2_lengthD [OF ws(2)] by simp
  have "\<forall>k<length ws. \<exists>n\<in>set (nodes L).
        position n = sorted_list_of_set (position ` set (nodes L)) ! k \<and> word n = ws ! k"
    using ws(2) by (auto simp: list_all2_conv_all_nth)
  with ws(1) len show ?thesis by blast
qed

theorem voting_consensus_positions_witness:
  "voting_consensus
     (projr (build_from_hypotheses ascii_lower
        [(''m1'', [''a'', ''B'']), (''m2'', [''a'', ''c'']), (''m3'', [''a'', ''c''])]
        [''A'', ''b''] (WordLattice_init ''word''))) = Inr [''a'', ''b''] \<and>
   card (position ` set (nodes
     (projr (build_from_hypotheses ascii_lower
        [(''m1'', [''a'', ''B'']), (''m2'', [''a'', ''c'']), (''m3'', [''a'', ''c''])]
        [''A'', ''b''] (WordLattice_init ''word''))))) = 2 \<and>
   (\<exists>n\<in>set (nodes
     (projr (build_from_hypotheses ascii_lower
        [(''m1'', [''a'', ''B'']), (''m2'', [''a'', ''c'']), (''m3'', [''a'', ''c''])]
        [''A'', ''b''] (WordLattice_init ''word'')))). position n = 0 \<and> word n = ''a'') \<and>
   (\<exists>n\<in>set (nodes
     (projr (build_from_hypotheses ascii_lower
        [(''m1'', [''a'', ''B'']), (''m2'', [''a'', ''c'']), (''m3'', [''a'', ''c''])]
        [''A'', ''b''] (WordLattice_init ''word'')))). position n = 1 \<and> word n = ''b'')"
proof -
  let ?L = "projr (build_from_hypotheses ascii_lower
        [(''m1'', [''a'', ''B'']), (''m2'', [''a'', ''c'']), (''m3'', [''a'', ''c''])]
        [''A'', ''b''] (WordLattice_init ''word''))"
  have v: "voting_consensus ?L = Inr [''a'', ''b'']"
    by code_simp
  have ps: "sorted_list_of_set (position ` set (nodes ?L)) = [0, 1]"
    by code_simp
  from voting_consensus_positions [of ?L] obtain ws
    where ws: "voting_consensus ?L = Inr ws" "length ws = card (position ` set (nodes ?L))"
      "\<forall>k<length ws. \<exists>n\<in>set (nodes ?L).
          position n = sorted_list_of_set (position ` set (nodes ?L)) ! k \<and> word n = ws ! k"
    by blast
  have eq: "ws = [''a'', ''b'']" using v ws(1) by simp
  have c: "card (position ` set (nodes ?L)) = 2" using ws(2) eq by simp
  have n0: "\<exists>n\<in>set (nodes ?L). position n = 0 \<and> word n = ''a''"
    using ws(3) [rule_format, of 0] unfolding eq ps by simp
  have n1: "\<exists>n\<in>set (nodes ?L). position n = 1 \<and> word n = ''b''"
    using ws(3) [rule_format, of 1] unfolding eq ps by simp
  show ?thesis using v c n0 n1 by blast
qed

subsection \<open>Scores that rank alike pick alike\<close>

lemma pick_best_apsnd:
  assumes "\<And>a b. (f a < f b) = (a < b)"
    and "\<forall>pos\<in>set ps. dd_get pw2 [] pos = map (apsnd f) (dd_get pw1 [] pos)"
  shows "pick_best pw2 ps = pick_best pw1 ps"
  using assms(2)
proof (induction ps)
  case Nil
  show ?case by simp
next
  case (Cons pos rest)
  then have rest: "pick_best pw2 rest = pick_best pw1 rest" by simp
  have "py_max_key snd (dd_get pw2 [] pos) = map_sum id (apsnd f) (py_max_key snd (dd_get pw1 [] pos))"
    using Cons.prems py_max_key_apsnd [of f, OF assms(1)] by simp
  then show ?case
    by (cases "py_max_key snd (dd_get pw1 [] pos)") (simp_all add: rest split: sum.splits)
qed

lemma confidence_eq_voting:
  assumes "0 < N" and "\<forall>n\<in>set (nodes L). confidence n = of_nat (card (sources n)) / of_nat N"
  shows "confidence_consensus L = voting_consensus L"
proof -
  let ?f = "\<lambda>k::nat. (of_nat k / of_nat N :: rat)"
  have mono: "\<And>a b. (?f a < ?f b) = (a < b)"
    using assms(1) by (simp add: divide_less_cancel)
  have get: "\<forall>pos\<in>set (sort (map fst (group_nodes (\<lambda>n. card (sources n)) (nodes L)))).
     dd_get (group_nodes confidence (nodes L)) [] pos
       = map (apsnd ?f) (dd_get (group_nodes (\<lambda>n. card (sources n)) (nodes L)) [] pos)"
    using assms(2) by (auto simp: group_nodes_get)
  have keys: "sort (map fst (group_nodes confidence (nodes L)))
                = sort (map fst (group_nodes (\<lambda>n. card (sources n)) (nodes L)))"
    by (simp only: group_nodes_positions)
  show ?thesis
    unfolding confidence_consensus_def voting_consensus_def Let_def keys
    by (rule pick_best_apsnd [of ?f, OF mono get])
qed

subsection \<open>Aligning always returns\<close>

declare backtrack.simps [simp del]

lemma for_each_preserves:
  assumes "\<And>x s. x \<in> set xs \<Longrightarrow> Inv s \<Longrightarrow> \<exists>s'. body x s = Inr s' \<and> Inv s'" and "Inv s"
  shows "\<exists>s'. for_each body xs s = Inr s' \<and> Inv s'"
  using assms
proof (induction xs arbitrary: s)
  case Nil
  then show ?case by simp
next
  case (Cons x xs)
  from Cons.prems(1) [of x s] Cons.prems(2) obtain s1 where s1: "body x s = Inr s1" "Inv s1"
    by auto
  have "\<exists>s'. for_each body xs s1 = Inr s' \<and> Inv s'"
    by (rule Cons.IH) (use Cons.prems(1) s1(2) in auto)
  then show ?case using s1(1) by simp
qed

lemma for_each_establishes:
  assumes "\<And>x s. x \<in> set xs \<Longrightarrow> \<exists>s'. body x s = Inr s' \<and> Inv s'" and "xs \<noteq> []"
  shows "\<exists>s'. for_each body xs s = Inr s' \<and> Inv s'"
proof (cases xs)
  case Nil
  with assms(2) show ?thesis by simp
next
  case (Cons x rest)
  from assms(1) [of x s] Cons obtain s1 where s1: "body x s = Inr s1" "Inv s1"
    by auto
  have "\<exists>s'. for_each body rest s1 = Inr s' \<and> Inv s'"
    by (rule for_each_preserves [where Inv = Inv]) (use assms(1) Cons s1(2) in auto)
  then show ?thesis using s1(1) Cons by simp
qed

lemma align_rec_not_Start: "snd (align_rec lower seq1 seq2 (Suc i) (Suc j)) \<noteq> Start"
  by (simp add: Let_def)

lemma backtrack_returns:
  "\<forall>i'\<le>length seq1. \<forall>j'\<le>length seq2. cell dp i' j' = Some (align_rec lower seq1 seq2 i' j') \<Longrightarrow>
   i \<le> length seq1 \<Longrightarrow> j \<le> length seq2 \<Longrightarrow> \<exists>r. backtrack seq1 seq2 dp i j al = Inr r"
proof (induction seq1 seq2 dp i j al rule: backtrack.induct)
  case (1 seq1 seq2 dp i j al)
  note tab = "1.prems"(1) and bi = "1.prems"(2) and bj = "1.prems"(3)
  show ?case
  proof (cases "i > 0 \<or> j > 0")
    case False
    then show ?thesis by (subst backtrack.simps) simp
  next
    case True
    show ?thesis
    proof (cases "i = 0")
      case True
      with \<open>i > 0 \<or> j > 0\<close> "1.IH"(1) tab bi bj show ?thesis
        by (subst backtrack.simps) simp
    next
      case False
      note inz = this
      show ?thesis
      proof (cases "j = 0")
        case True
        with inz "1.IH"(2) tab bi bj show ?thesis by (subst backtrack.simps) simp
      next
        case False
        obtain i' j' where ij: "i = Suc i'" "j = Suc j'"
          using inz False by (metis not0_implies_Suc)
        have o: "oper dp i j = snd (align_rec lower seq1 seq2 i j)"
          using tab bi bj by (simp add: oper_def)
        have "snd (align_rec lower seq1 seq2 i j) \<noteq> Start"
          unfolding ij by (rule align_rec_not_Start)
        then have ns: "oper dp i j \<noteq> Start"
          by (simp add: o)
        show ?thesis
          using "1.IH"(3-6) inz False ns tab bi bj
          by (subst backtrack.simps) (cases "oper dp i j"; simp)
      qed
    qed
  qed
qed

lemma align_pair_returns: "\<exists>al. align_pair lower seq1 seq2 name = Inr al"
proof -
  have "\<forall>i'\<le>length seq1. \<forall>j'\<le>length seq2.
          cell (fill_align_table lower seq1 seq2) i' j' = Some (align_rec lower seq1 seq2 i' j')"
    by (simp add: fill_align_table_cells)
  from backtrack_returns [OF this, of "length seq1" "length seq2" "[]"] show ?thesis
    by (auto simp: align_pair_def Let_def)
qed

lemma dict_set_nonempty: "dict_set k v d \<noteq> []"
  by (cases d) (auto split: if_splits)

lemma align_all_sequences_returns:
  "\<exists>alignments. align_all_sequences lower hypotheses reference = Inr alignments \<and> alignments \<noteq> []"
proof -
  let ?all = "dict_set ''reference'' reference hypotheses"
  have ne: "?all \<noteq> []" by (rule dict_set_nonempty)
  then obtain anchor_name anchor_seq
    where a: "py_max_key (\<lambda>(k, seq). length seq) ?all = Inr (anchor_name, anchor_seq)"
    using py_max_key_nonempty [of ?all] by fastforce
  let ?body = "\<lambda>(name, seq) alignments.
                  if name = anchor_name
                  then Inr (dict_set name
                              (map (\<lambda>(i, w). (int i, w, Match)) (enumerate 0 seq)) alignments)
                  else (case align_pair lower anchor_seq seq name of
                          Inl e \<Rightarrow> Inl e
                        | Inr al \<Rightarrow> Inr (dict_set name al alignments))"
  have "\<exists>s'. for_each ?body ?all [] = Inr s' \<and> s' \<noteq> []"
  proof (rule for_each_establishes [OF _ ne])
    fix x :: "string \<times> string list" and s :: "(string \<times> alignment) list"
    obtain name seq where x: "x = (name, seq)" by (cases x)
    obtain al where "align_pair lower anchor_seq seq name = Inr al"
      using align_pair_returns by blast
    then show "\<exists>s'. ?body x s = Inr s' \<and> s' \<noteq> []"
      by (simp add: x dict_set_nonempty)
  qed
  then show ?thesis
    by (simp add: align_all_sequences_def Let_def a)
qed

subsection \<open>The nodes that lattice construction appends\<close>

lemma add_word_nodes:
  "0 < N \<Longrightarrow>
   \<exists>L'. add_word N positions i pos (w, srcs) L = Inr L' \<and>
        nodes L' = nodes L @ [\<lparr>position = pos, word = w, sources = srcs,
                               confidence = of_nat (card srcs) / of_nat N\<rparr>]"
  by (simp add: add_word_def py_truediv_def Let_def)

lemma dd_get_mem:
  "x \<in> set (dd_get d [] k) \<Longrightarrow> \<exists>v. (k, v) \<in> set d \<and> x \<in> set v"
proof -
  assume x: "x \<in> set (dd_get d [] k)"
  show ?thesis
  proof (cases "map_of d k")
    case None
    with x show ?thesis by (simp add: dd_get_def)
  next
    case (Some v)
    then have "(k, v) \<in> set d" by (rule map_of_SomeD)
    with x Some show ?thesis by (auto simp: dd_get_def)
  qed
qed

lemma construct_lattice_nodes:
  assumes "0 < length alignments" and "\<forall>n\<in>set (nodes L). P n"
    and "\<And>pos w srcs. (w, srcs) \<in> set (dd_get (group_words lower alignments) [] pos) \<Longrightarrow>
           P \<lparr>position = pos, word = w, sources = srcs,
              confidence = of_nat (card srcs) / of_nat (length alignments)\<rparr>"
  shows "\<exists>L'. construct_lattice lower alignments reference L = Inr L' \<and> (\<forall>n\<in>set (nodes L'). P n)"
  unfolding construct_lattice_def Let_def
proof (rule for_each_preserves [where Inv = "\<lambda>L. \<forall>n\<in>set (nodes L). P n"])
  fix x :: "nat \<times> int" and s :: WordLattice
  assume s: "\<forall>n\<in>set (nodes s). P n"
  obtain i pos where x: "x = (i, pos)" by (cases x)
  have "\<exists>s'. for_each (add_word (length alignments) (sort (map fst (group_words lower alignments))) i pos)
               (dd_get (group_words lower alignments) [] pos) s = Inr s' \<and> (\<forall>n\<in>set (nodes s'). P n)"
  proof (rule for_each_preserves [where Inv = "\<lambda>L. \<forall>n\<in>set (nodes L). P n"])
    fix y :: "string \<times> string set" and t :: WordLattice
    assume y: "y \<in> set (dd_get (group_words lower alignments) [] pos)" and t: "\<forall>n\<in>set (nodes t). P n"
    obtain w srcs where yw: "y = (w, srcs)" by (cases y)
    from add_word_nodes [OF assms(1), of "sort (map fst (group_words lower alignments))" i pos w srcs t]
    obtain t' where t': "add_word (length alignments) (sort (map fst (group_words lower alignments))) i pos
                           (w, srcs) t = Inr t'"
      "nodes t' = nodes t @ [\<lparr>position = pos, word = w, sources = srcs,
                               confidence = of_nat (card srcs) / of_nat (length alignments)\<rparr>]"
      by blast
    have "\<forall>n\<in>set (nodes t'). P n"
      using t t'(2) assms(3) [of w srcs pos] y yw by auto
    then show "\<exists>s'. add_word (length alignments) (sort (map fst (group_words lower alignments))) i pos y t
                   = Inr s' \<and> (\<forall>n\<in>set (nodes s'). P n)"
      using t'(1) yw by simp
  qed (rule s)
  then show "\<exists>s'. (case x of (i, pos) \<Rightarrow>
                 for_each (add_word (length alignments) (sort (map fst (group_words lower alignments))) i pos)
                   (dd_get (group_words lower alignments) [] pos)) s = Inr s' \<and> (\<forall>n\<in>set (nodes s'). P n)"
    by (simp add: x)
qed (rule assms(2))

text \<open>Every word under which \<open>group_words\<close> stores a source is a folded word.\<close>

lemma dd_update_values:
  assumes "\<forall>(k, v)\<in>set d. R v" and "R (f dflt)" and "\<And>v. R v \<Longrightarrow> R (f v)"
  shows "\<forall>(k, v)\<in>set (dd_update k0 dflt f d). R v"
  using assms(1) by (induction d) (auto simp: assms(2,3) split: if_splits)

lemma dd_update_key_set:
  "set (map fst (dd_update k dflt f d)) = insert k (set (map fst d))"
  by (auto simp: dd_update_keys)

lemma group_words_folded:
  "\<forall>(pos, ws)\<in>set (group_words lower alignments). \<forall>w\<in>set (map fst ws). \<exists>v. w = lower v"
proof -
  let ?R = "\<lambda>ws :: (string \<times> string set) list. \<forall>w\<in>set (map fst ws). \<exists>v. w = lower v"
  let ?Q = "\<lambda>pw :: position_words. \<forall>(pos, ws)\<in>set pw. ?R ws"
  have upd: "?Q (dd_update pos [] (dd_update (lower w) {} (insert name)) pw)"
    if "?Q pw" for pw pos w name
  proof (rule dd_update_values [OF that])
    show "?R (dd_update (lower w) {} (insert name) [])" by auto
    show "\<And>v. ?R v \<Longrightarrow> ?R (dd_update (lower w) {} (insert name) v)"
      by (simp only: dd_update_key_set) auto
  qed
  have inner: "?Q (foldl (\<lambda>pw (pos, w, op).
                       if op \<noteq> Delete
                       then dd_update pos [] (dd_update (lower w) {} (insert name)) pw
                       else pw) pw al)" if "?Q pw" for pw name and al :: alignment
    using that
  proof (induction al arbitrary: pw)
    case Nil
    then show ?case by simp
  next
    case (Cons a al)
    obtain pos w op where a: "a = (pos, w, op)" by (cases a)
    show ?case
      unfolding foldl_Cons a prod.case
      by (rule Cons.IH) (use upd [OF Cons.prems] Cons.prems in \<open>simp split: if_splits\<close>)
  qed
  have outer: "?Q (foldl (\<lambda>pw (model_name, al).
              foldl (\<lambda>pw (pos, w, op).
                       if op \<noteq> Delete
                       then dd_update pos [] (dd_update (lower w) {} (insert model_name)) pw
                       else pw)
                    pw al) pw als)" if "?Q pw" for pw and als :: "(string \<times> alignment) list"
    using that
  proof (induction als arbitrary: pw)
    case Nil
    then show ?case by simp
  next
    case (Cons a als)
    obtain name al where a: "a = (name, al)" by (cases a)
    show ?case
      unfolding foldl_Cons a prod.case
      by (rule Cons.IH) (rule inner [OF Cons.prems])
  qed
  show ?thesis
    unfolding group_words_def by (rule outer) simp
qed

lemma build_from_hypotheses_nodes:
  "\<exists>L N. build_from_hypotheses lower hypotheses reference (WordLattice_init unit) = Inr L \<and> 0 < N \<and>
     (\<forall>n\<in>set (nodes L). confidence n = of_nat (card (sources n)) / of_nat N \<and>
                          (\<exists>v. word n = lower v))"
proof -
  obtain als where als: "align_all_sequences lower hypotheses reference = Inr als" "als \<noteq> []"
    using align_all_sequences_returns by blast
  let ?P = "\<lambda>n. confidence n = of_nat (card (sources n)) / of_nat (length als) \<and>
                 (\<exists>v. word n = lower v)"
  have "\<exists>L'. construct_lattice lower als reference (WordLattice_init unit) = Inr L' \<and>
             (\<forall>n\<in>set (nodes L'). ?P n)"
  proof (rule construct_lattice_nodes)
    show "0 < length als" using als(2) by simp
    show "\<forall>n\<in>set (nodes (WordLattice_init unit)). ?P n" by (simp add: WordLattice_init_def)
    fix pos w srcs
    assume "(w, srcs) \<in> set (dd_get (group_words lower als) [] pos)"
    then obtain ws where "(pos, ws) \<in> set (group_words lower als)" "(w, srcs) \<in> set ws"
      using dd_get_mem by fastforce
    then have "\<exists>v. w = lower v"
      using group_words_folded [of lower als] by force
    then show "?P \<lparr>position = pos, word = w, sources = srcs,
                   confidence = of_nat (card srcs) / of_nat (length als)\<rparr>"
      by simp
  qed
  then show ?thesis
    using als by (auto simp: build_from_hypotheses_def)
qed

subsection \<open>Claims about the consensus\<close>

lemma consensus_returns_node_words:
  fixes score :: "LatticeNode \<Rightarrow> 'k::linorder"
  shows "\<exists>ws. pick_best (group_nodes score ns) (sort (map fst (group_nodes score ns))) = Inr ws \<and>
              set ws \<subseteq> word ` set ns"
proof -
  from consensus_words [of score ns] obtain ws
    where ws: "pick_best (group_nodes score ns) (sort (map fst (group_nodes score ns))) = Inr ws"
      "list_all2 (\<lambda>pos w. \<exists>n\<in>set ns. position n = pos \<and> word n = w)
         (sorted_list_of_set (position ` set ns)) ws"
    by blast
  have "set ws \<subseteq> word ` set ns"
  proof
    fix w assume "w \<in> set ws"
    then obtain k where "k < length ws" "ws ! k = w" by (auto simp: in_set_conv_nth)
    then have "\<exists>n\<in>set ns. word n = w"
      using ws(2) by (fastforce simp: list_all2_conv_all_nth)
    then show "w \<in> word ` set ns"
      by auto
  qed
  with ws(1) show ?thesis by blast
qed

lemma voting_consensus_words: "\<exists>ws. voting_consensus L = Inr ws \<and> set ws \<subseteq> word ` set (nodes L)"
  using consensus_returns_node_words [of "\<lambda>n. card (sources n)" "nodes L"]
  by (simp add: voting_consensus_def Let_def)

lemma confidence_consensus_words:
  "\<exists>ws. confidence_consensus L = Inr ws \<and> set ws \<subseteq> word ` set (nodes L)"
  using consensus_returns_node_words [of confidence "nodes L"]
  by (simp add: confidence_consensus_def Let_def)

text \<open>
  C3: building a fresh lattice from any hypotheses and reference succeeds, and on the built
  lattice the \<open>'confidence'\<close> strategy returns the same token sequence as the
  \<open>'voting'\<close> strategy. (Confidence is the exact quotient of the number of sources by the
  number of aligned sequences here; the doubles computed by Python rank the same way as
  long as there are fewer than \<open>2^53\<close> sequences.)
\<close>

theorem confidence_strategy_equals_voting:
  "\<exists>L. build_from_hypotheses lower hypotheses reference (WordLattice_init unit) = Inr L \<and>
       (\<exists>ws. fst (get_consensus_transcription L ''voting'') = Inr ws \<and>
             fst (get_consensus_transcription L ''confidence'') = Inr ws)"
proof -
  from build_from_hypotheses_nodes [of lower hypotheses reference unit] obtain L N
    where L: "build_from_hypotheses lower hypotheses reference (WordLattice_init unit) = Inr L" "0 < N"
      "\<forall>n\<in>set (nodes L). confidence n = of_nat (card (sources n)) / of_nat N \<and>
                          (\<exists>v. word n = lower v)"
    by blast
  have eq: "confidence_consensus L = voting_consensus L"
    by (rule confidence_eq_voting [OF L(2)]) (use L(3) in simp)
  obtain ws where "voting_consensus L = Inr ws"
    using voting_consensus_words by blast
  with eq L(1) show ?thesis
    by (auto simp: get_consensus_transcription_def)
qed

text \<open>
  C10: every node of a lattice built from any hypotheses and reference stores a value of
  \<open>str.lower()\<close>, and so is every token of the consensus under either strategy, whatever
  the case of the input tokens. As lower-casing a lower-cased string changes nothing, each
  of these words equals its own lower-casing.
\<close>

theorem lattice_words_are_folded:
  "\<exists>L. build_from_hypotheses lower hypotheses reference (WordLattice_init unit) = Inr L \<and>
       (\<forall>n\<in>set (nodes L). \<exists>v. word n = lower v) \<and>
       (\<exists>ws. fst (get_consensus_transcription L ''voting'') = Inr ws \<and>
             (\<forall>w\<in>set ws. \<exists>v. w = lower v)) \<and>
       (\<exists>ws. fst (get_consensus_transcription L ''confidence'') = Inr ws \<and>
             (\<forall>w\<in>set ws. \<exists>v. w = lower v)) \<and>
       ((\<forall>v. lower (lower v) = lower v) \<longrightarrow>
          (\<forall>n\<in>set (nodes L). lower (word n) = word n) \<and>
          (\<exists>ws. fst (get_consensus_transcription L ''voting'') = Inr ws \<and>
                (\<forall>w\<in>set ws. lower w = w)) \<and>
          (\<exists>ws. fst (get_consensus_transcription L ''confidence'') = Inr ws \<and>
                (\<forall>w\<in>set ws. lower w = w)))"
proof -
  from build_from_hypotheses_nodes [of lower hypotheses reference unit] obtain L N
    where L: "build_from_hypotheses lower hypotheses reference (WordLattice_init unit) = Inr L"
      "\<forall>n\<in>set (nodes L). confidence n = of_nat (card (sources n)) / of_nat N \<and>
                          (\<exists>v. word n = lower v)"
    by blast
  then have low: "\<forall>n\<in>set (nodes L). \<exists>v. word n = lower v" by simp
  obtain vs where vs: "voting_consensus L = Inr vs" "set vs \<subseteq> word ` set (nodes L)"
    using voting_consensus_words by blast
  obtain cs where cs: "confidence_consensus L = Inr cs" "set cs \<subseteq> word ` set (nodes L)"
    using confidence_consensus_words by blast
  have v: "fst (get_consensus_transcription L ''voting'') = Inr vs"
    and c: "fst (get_consensus_transcription L ''confidence'') = Inr cs"
    using vs(1) cs(1) by (simp_all add: get_consensus_transcription_def)
  have lv: "\<forall>w\<in>set vs. \<exists>v. w = lower v" using vs(2) low by auto
  have lc: "\<forall>w\<in>set cs. \<exists>v. w = lower v" using cs(2) low by auto
  have idem: "(\<forall>n\<in>set (nodes L). lower (word n) = word n) \<and>
              (\<forall>w\<in>set vs. lower w = w) \<and> (\<forall>w\<in>set cs. lower w = w)"
    if "\<forall>v. lower (lower v) = lower v"
    using that low lv lc by metis
  show ?thesis
    using L(1) low v c lv lc idem by blast
qed

theorem lattice_words_are_folded_witness:
  "(\<forall>v. ascii_lower (ascii_lower v) = ascii_lower v) \<and>
   (\<exists>L. build_from_hypotheses ascii_lower [(''m1'', [''Hello'', ''World''])] [''HELLO'']
          (WordLattice_init ''word'') = Inr L \<and>
        map word (nodes L) = [''hello'', ''world''] \<and>
        fst (get_consensus_transcription L ''voting'') = Inr [''hello'', ''world''] \<and>
        fst (get_consensus_transcription L ''confidence'') = Inr [''hello'', ''world'']) \<and>
   ascii_lower ''hello'' = ''hello'' \<and> ascii_lower ''world'' = ''world''"
proof -
  let ?b = "build_from_hypotheses ascii_lower [(''m1'', [''Hello'', ''World''])] [''HELLO'']
              (WordLattice_init ''word'')"
  have i: "\<forall>v. ascii_lower (ascii_lower v) = ascii_lower v"
    by (simp add: ascii_lower_idem)
  from lattice_words_are_folded [where lower = ascii_lower
      and hypotheses = "[(''m1'', [''Hello'', ''World''])]" and reference = "[''HELLO'']"
      and unit = "''word''"] i
  obtain L where L: "?b = Inr L" "\<forall>n\<in>set (nodes L). ascii_lower (word n) = word n"
    by blast
  have w: "map word (nodes (projr ?b)) = [''hello'', ''world'']"
    by code_simp
  have v: "fst (get_consensus_transcription (projr ?b) ''voting'') = Inr [''hello'', ''world'']"
    by code_simp
  have c: "fst (get_consensus_transcription (projr ?b) ''confidence'') = Inr [''hello'', ''world'']"
    by code_simp
  have words: "map word (nodes L) = [''hello'', ''world'']" using w L(1) by simp
  have "\<forall>x\<in>set (map word (nodes L)). ascii_lower x = x" using L(2) by simp
  then have "ascii_lower ''hello'' = ''hello'' \<and> ascii_lower ''world'' = ''world''"
    unfolding words by simp
  then show ?thesis using L(1) w v c i by auto
qed

text \<open>
  C7: \<open>get_consensus_transcription\<close> fails exactly when the strategy is neither
  \<open>'voting'\<close> nor \<open>'confidence'\<close>; the failure is a \<open>ValueError\<close>, and the lattice
  is the same after the call.
\<close>

theorem unknown_strategy_fails:
  "((\<exists>e. fst (get_consensus_transcription L strategy) = Inl e) \<longleftrightarrow>
      (strategy \<noteq> ''voting'' \<and> strategy \<noteq> ''confidence'')) \<and>
   (strategy \<noteq> ''voting'' \<and> strategy \<noteq> ''confidence'' \<longrightarrow>
      fst (get_consensus_transcription L strategy)
        = Inl (ValueError (''Unknown strategy: '' @ strategy))) \<and>
   snd (get_consensus_transcription L strategy) = L"
proof -
  obtain vs where vs: "voting_consensus L = Inr vs"
    using voting_consensus_words by blast
  obtain cs where cs: "confidence_consensus L = Inr cs"
    using confidence_consensus_words by blast
  show ?thesis
    using vs cs by (simp add: get_consensus_transcription_def)
qed

theorem unknown_strategy_fails_witness:
  "''best'' \<noteq> ''voting'' \<and> ''best'' \<noteq> ''confidence'' \<and>
   get_consensus_transcription
     \<lparr>alignment_unit = ''word'',
      nodes = [\<lparr>position = 0, word = ''a'', sources = {''m1'', ''reference''}, confidence = 1\<rparr>],
      edges = [], paths = []\<rparr> ''best''
   = (Inl (ValueError ''Unknown strategy: best''),
      \<lparr>alignment_unit = ''word'',
       nodes = [\<lparr>position = 0, word = ''a'', sources = {''m1'', ''reference''}, confidence = 1\<rparr>],
       edges = [], paths = []\<rparr>)"
  using unknown_strategy_fails [of "\<lparr>alignment_unit = ''word'',
      nodes = [\<lparr>position = 0, word = ''a'', sources = {''m1'', ''reference''}, confidence = 1\<rparr>],
      edges = [], paths = []\<rparr>" "''best''"]
  by (simp add: prod_eq_iff)

subsection \<open>Claims about the trust decision\<close>

lemma foldl_max_Max: "foldl max (x::'a::linorder) xs = Max (set (x # xs))"
proof -
  have "(\<lambda>a s. max s a) = (max :: 'a \<Rightarrow> 'a \<Rightarrow> 'a)"
    by (intro ext) (rule max.commute)
  then have "foldl max x xs = fold max xs x"
    by (simp add: foldl_conv_fold)
  then show ?thesis
    by (simp only: Max.set_eq_fold)
qed

lemma scan_words_fold_reference:
  "\<forall>n\<in>set ns. ''reference'' \<notin> sources n \<Longrightarrow>
   fst (foldl (\<lambda>(reference_word, consensus_word) node.
              (if ''reference'' \<in> sources node then Some (word node) else reference_word,
               if confidence node = m then Some (word node) else consensus_word))
           (r, c) ns) = r"
  by (induction ns arbitrary: r c) simp_all

lemma scan_words_fold_consensus:
  "c \<noteq> None \<or> (\<exists>n\<in>set ns. confidence n = m) \<Longrightarrow>
   snd (foldl (\<lambda>(reference_word, consensus_word) node.
              (if ''reference'' \<in> sources node then Some (word node) else reference_word,
               if confidence node = m then Some (word node) else consensus_word))
           (r, c) ns) \<noteq> None"
proof (induction ns arbitrary: r c)
  case Nil
  then show ?case by simp
next
  case (Cons n ns)
  show ?case
    unfolding foldl_Cons prod.case
    by (rule Cons.IH) (use Cons.prems in auto)
qed

lemma should_trust_unfold:
  "should_trust_models_over_reference L p t =
     (let ns = filter (\<lambda>n. position n = p) (nodes L);
          m = Max (confidence ` set ns)
      in ns \<noteq> [] \<and> t \<le> m \<and> fst (scan_words m ns) \<noteq> snd (scan_words m ns))"
proof (cases "filter (\<lambda>n. position n = p) (nodes L)")
  case Nil
  then show ?thesis by (simp add: should_trust_models_over_reference_def)
next
  case (Cons n ns)
  have "foldl max (confidence n) (map confidence ns) = Max (confidence ` set (n # ns))"
    by (simp only: foldl_max_Max list.map(2) [symmetric] set_map)
  then show ?thesis
    using Cons
    by (simp add: should_trust_models_over_reference_def Let_def split: prod.splits)
qed

text \<open>
  C6: for a fixed lattice and position, a true answer implies that nodes exist at the
  position and that their maximal confidence reaches the threshold; a true answer at a
  threshold stays true at every lower threshold; and the answer is false when no node is
  at the position.
\<close>

theorem trust_threshold_monotone:
  "(should_trust_models_over_reference L p t \<longrightarrow>
      (\<exists>n\<in>set (nodes L). position n = p) \<and>
      t \<le> Max (confidence ` {n \<in> set (nodes L). position n = p})) \<and>
   (t1 \<le> t2 \<and> should_trust_models_over_reference L p t2 \<longrightarrow>
      should_trust_models_over_reference L p t1) \<and>
   ((\<forall>n\<in>set (nodes L). position n \<noteq> p) \<longrightarrow> \<not> should_trust_models_over_reference L p t)"
proof -
  have s: "{n \<in> set (nodes L). position n = p} = set (filter (\<lambda>n. position n = p) (nodes L))"
    by auto
  show ?thesis
    unfolding should_trust_unfold Let_def s
    by (auto simp: filter_empty_conv)
qed

theorem trust_threshold_monotone_witness:
  "should_trust_models_over_reference
     (projr (build_from_hypotheses ascii_lower [(''m1'', [''a'', ''b''])] [''A''] (WordLattice_init ''word'')))
     1 (1 / 2) \<and>
   (1 / 2 :: rat) \<le> Max (confidence ` {n \<in> set (nodes
     (projr (build_from_hypotheses ascii_lower [(''m1'', [''a'', ''b''])] [''A''] (WordLattice_init ''word'')))).
       position n = 1}) \<and>
   (1 / 4 :: rat) \<le> 1 / 2 \<and>
   should_trust_models_over_reference
     (projr (build_from_hypotheses ascii_lower [(''m1'', [''a'', ''b''])] [''A''] (WordLattice_init ''word'')))
     1 (1 / 4) \<and>
   \<not> (\<exists>n\<in>set (nodes (projr (build_from_hypotheses ascii_lower [(''m1'', [''a'', ''b''])] [''A'']
                               (WordLattice_init ''word'')))). position n = 7) \<and>
   \<not> should_trust_models_over_reference
     (projr (build_from_hypotheses ascii_lower [(''m1'', [''a'', ''b''])] [''A''] (WordLattice_init ''word'')))
     7 (1 / 2)"
proof -
  let ?L = "projr (build_from_hypotheses ascii_lower [(''m1'', [''a'', ''b''])] [''A'']
                     (WordLattice_init ''word''))"
  have t: "should_trust_models_over_reference ?L 1 (1 / 2)"
    by code_simp
  have e: "\<forall>n\<in>set (nodes ?L). position n \<noteq> 7"
    by code_simp
  have le: "(1 / 4 :: rat) \<le> 1 / 2" by simp
  note a = trust_threshold_monotone [of ?L 1 "1 / 2" "1 / 4" "1 / 2"]
  note b = trust_threshold_monotone [of ?L 7 "1 / 2" "1 / 4" "1 / 2"]
  from a t have m: "(1 / 2 :: rat) \<le> Max (confidence ` {n \<in> set (nodes ?L). position n = 1})"
    by blast
  from a t le have l: "should_trust_models_over_reference ?L 1 (1 / 4)"
    by blast
  from b e have f: "\<not> should_trust_models_over_reference ?L 7 (1 / 2)"
    by blast
  from t m le l e f show ?thesis by blast
qed

text \<open>
  C9: when some node at the position has a confidence of at least the threshold and no
  node at the position has \<open>'reference'\<close> among its sources, the answer is true: the
  reference word stays \<open>None\<close> and differs from the word of a node of maximal confidence.
\<close>

theorem trust_without_reference_node:
  assumes "\<exists>n\<in>set (nodes L). position n = p \<and> t \<le> confidence n"
    and "\<forall>n\<in>set (nodes L). position n = p \<longrightarrow> ''reference'' \<notin> sources n"
  shows "should_trust_models_over_reference L p t"
proof -
  let ?ns = "filter (\<lambda>n. position n = p) (nodes L)"
  let ?m = "Max (confidence ` set ?ns)"
  from assms(1) obtain n where n: "n \<in> set ?ns" "t \<le> confidence n" by auto
  have ne: "?ns \<noteq> []" using n(1) by (metis empty_iff empty_set)
  have "confidence n \<le> ?m" using n(1) by (intro Max_ge) auto
  then have tm: "t \<le> ?m" using n(2) by simp
  have "?m \<in> confidence ` set ?ns"
    using ne by (intro Max_in) (auto simp: filter_empty_conv)
  then have att: "\<exists>n\<in>set ?ns. confidence n = ?m" by auto
  have r: "fst (scan_words ?m ?ns) = None"
    unfolding scan_words_def by (rule scan_words_fold_reference) (use assms(2) in auto)
  have c: "snd (scan_words ?m ?ns) \<noteq> None"
    unfolding scan_words_def by (rule scan_words_fold_consensus) (use att in blast)
  have "fst (scan_words ?m ?ns) \<noteq> snd (scan_words ?m ?ns)"
    using r c by metis
  with ne tm show ?thesis
    unfolding should_trust_unfold Let_def by blast
qed


theorem trust_without_reference_node_witness:
  "(\<exists>n\<in>set (nodes (projr (build_from_hypotheses ascii_lower [(''m1'', [''a'', ''b''])] [''A'']
                               (WordLattice_init ''word'')))).
      position n = 1 \<and> 1 / 2 \<le> confidence n) \<and>
   \<not> (\<exists>n\<in>set (nodes (projr (build_from_hypotheses ascii_lower [(''m1'', [''a'', ''b''])] [''A'']
                               (WordLattice_init ''word'')))).
      position n = 1 \<and> ''reference'' \<in> sources n) \<and>
   should_trust_models_over_reference
     (projr (build_from_hypotheses ascii_lower [(''m1'', [''a'', ''b''])] [''A''] (WordLattice_init ''word'')))
     1 (1 / 2)"
proof -
  let ?L = "projr (build_from_hypotheses ascii_lower [(''m1'', [''a'', ''b''])] [''A'']
                     (WordLattice_init ''word''))"
  have h1: "\<exists>n\<in>set (nodes ?L). position n = 1 \<and> 1 / 2 \<le> confidence n"
    by code_simp
  have h2: "\<forall>n\<in>set (nodes ?L). position n = 1 \<longrightarrow> ''reference'' \<notin> sources n"
    by code_simp
  from trust_without_reference_node [OF h1 h2] h1 h2 show ?thesis by blast
qed

end
